theory Spec2Isabelle
  imports Main "HOL-Library.AList"
begin

section \<open>JavaScript values and plain objects\<close>

text \<open>
  The administration API of HFS (\<^verbatim>\<open>adminApis\<close>: \<^verbatim>\<open>get_vfs\<close>, \<^verbatim>\<open>move_vfs\<close>, \<^verbatim>\<open>set_vfs\<close>,
  \<^verbatim>\<open>add_vfs\<close>, \<^verbatim>\<open>del_vfs\<close>, \<^verbatim>\<open>get_ls\<close>) works on dynamically typed objects. A property value
  is one of the JSON-representable primitives or a reference to an object or array that
  lives elsewhere (\<open>Ref\<close>); \<open>Undefined\<close> is the value of a property that is present but
  unset. Numbers are restricted to integers (JSON has no \<^verbatim>\<open>NaN\<close>).
\<close>

type_synonym addr = nat

datatype jsval = Undefined | Null | Bool bool | Num int | Str string | Ref addr

text \<open>JavaScript truthiness, as used by \<^verbatim>\<open>if (v)\<close>, \<^verbatim>\<open>!v\<close> and \<^verbatim>\<open>a && b\<close>.\<close>

fun truthy :: "jsval \<Rightarrow> bool" where
  "truthy Undefined = False"
| "truthy Null = False"
| "truthy (Bool b) = b"
| "truthy (Num n) = (n \<noteq> 0)"
| "truthy (Str s) = (s \<noteq> [])"
| "truthy (Ref a) = True"

text \<open>\<^verbatim>\<open>typeof v === 'object'\<close> (which holds of \<^verbatim>\<open>null\<close> too).\<close>

fun typeof_object :: "jsval \<Rightarrow> bool" where
  "typeof_object Null = True"
| "typeof_object (Ref a) = True"
| "typeof_object v = False"

text \<open>
  A plain object is its list of own properties in insertion order, each key at most once.
  \<open>obj_get o k\<close> is \<^verbatim>\<open>o[k]\<close> (\<^verbatim>\<open>undefined\<close> for a missing key), \<open>obj_has k o\<close> is
  \<^verbatim>\<open>k in o\<close> for the keys used here (none of them is a property of \<^verbatim>\<open>Object.prototype\<close>),
  \<open>AList.update k v o\<close> is \<^verbatim>\<open>o[k] = v\<close> and \<open>AList.delete k o\<close> is \<^verbatim>\<open>delete o[k]\<close>.
\<close>

type_synonym obj = "(string \<times> jsval) list"

definition obj_get :: "obj \<Rightarrow> string \<Rightarrow> jsval" where
  "obj_get ob k = (case map_of ob k of None \<Rightarrow> Undefined | Some v \<Rightarrow> v)"

definition obj_has :: "string \<Rightarrow> obj \<Rightarrow> bool" where
  "obj_has k ob = (k \<in> set (map fst ob))"

text \<open>\<^verbatim>\<open>Object.assign(target, source)\<close>: every own property of the source is written to the
  target, in order, values \<^verbatim>\<open>undefined\<close> included.\<close>

definition object_assign :: "obj \<Rightarrow> obj \<Rightarrow> obj" where
  "object_assign target src = foldl (\<lambda>t (k, v). AList.update k v t) target src"

text \<open>\<^verbatim>\<open>_.pickBy(o, pred)\<close>: the properties of \<open>o\<close> whose value and key satisfy \<open>pred\<close>.\<close>

definition pickBy :: "obj \<Rightarrow> (jsval \<Rightarrow> string \<Rightarrow> bool) \<Rightarrow> obj" where
  "pickBy ob pred = filter (\<lambda>(k, v). pred v k) ob"

section \<open>Path helpers of Node's \<^verbatim>\<open>path\<close> module (POSIX flavour)\<close>

definition slash :: char where
  "slash = CHR ''/''"

text \<open>\<^verbatim>\<open>basename(p)\<close>: the last portion of the path, trailing separators ignored.\<close>

definition basename :: "string \<Rightarrow> string" where
  "basename p = rev (takeWhile (\<lambda>c. c \<noteq> slash) (dropWhile (\<lambda>c. c = slash) (rev p)))"

text \<open>
  \<^verbatim>\<open>dirname(p)\<close>: scanning from the end down to index 1, trailing separators are skipped,
  then the last portion; the result is the path up to the separator found (\<open>end\<close>),
  or \<^verbatim>\<open>'/'\<close> / \<^verbatim>\<open>'.'\<close> when there is none, or \<^verbatim>\<open>'//'\<close> when the path is rooted and \<open>end = 1\<close>.
\<close>

definition dirname :: "string \<Rightarrow> string" where
  "dirname p =
     (if p = [] then ''.''
      else let r = dropWhile (\<lambda>c. c \<noteq> slash) (dropWhile (\<lambda>c. c = slash) (rev p));
               hasRoot = (hd p = slash)
           in if length r \<le> 1 then (if hasRoot then ''/'' else ''.'')
              else if hasRoot \<and> length r - 1 = 1 then ''//''
              else take (length r - 1) p)"

text \<open>
  \<^verbatim>\<open>extname(p)\<close>: from the last dot of the last portion to its end; empty when there is no
  dot, when the only dot is the first character of the portion, or when the portion
  is \<^verbatim>\<open>'..'\<close>.
\<close>

definition extname :: "string \<Rightarrow> string" where
  "extname p =
     (let part = basename p;
          e = rev (takeWhile (\<lambda>c. c \<noteq> CHR ''.'') (rev part))
      in if CHR ''.'' \<notin> set part then []
         else if length part = length e + 1 then []
         else if part = ''..'' then []
         else CHR ''.'' # e)"

section \<open>Node names\<close>

text \<open>
  Modelled from the spec: \<^verbatim>\<open>getNodeName\<close> of \<^verbatim>\<open>vfs.ts\<close>, which is not among the sources.
  The effective name is the explicit \<^verbatim>\<open>name\<close> if it is set and non-empty, otherwise the base
  name of \<^verbatim>\<open>source\<close>; a node with neither (the root) has the empty name. It is a function of
  the two properties \<^verbatim>\<open>name\<close> and \<^verbatim>\<open>source\<close> only.
\<close>

definition getNodeName :: "obj \<Rightarrow> string" where
  "getNodeName node =
     (case obj_get node ''name'' of
        Str n \<Rightarrow> if n \<noteq> [] then n
                 else (case obj_get node ''source'' of Str s \<Rightarrow> basename s | _ \<Rightarrow> [])
      | _ \<Rightarrow> (case obj_get node ''source'' of Str s \<Rightarrow> basename s | _ \<Rightarrow> []))"

text \<open>
  \<^verbatim>\<open>simplifyName(node)\<close>: \<^verbatim>\<open>const { name, ...noName } = node\<close>; when the name computed for
  \<open>noName\<close> is (strictly) equal to \<open>name\<close>, the property \<^verbatim>\<open>name\<close> is deleted from the node.
\<close>

definition simplifyName :: "obj \<Rightarrow> obj" where
  "simplifyName node =
     (let name = obj_get node ''name'';
          noName = AList.delete ''name'' node
      in if Str (getNodeName noName) = name then AList.delete ''name'' node else node)"

text \<open>
  \<^verbatim>\<open>pickProps(o, keys)\<close>: only the selected properties that \<open>o\<close> has, with \<^verbatim>\<open>null\<close> and the
  empty string turned into \<^verbatim>\<open>undefined\<close>. The argument is \<open>None\<close> when it is not an object.
\<close>

definition pickProps :: "obj option \<Rightarrow> string list \<Rightarrow> obj" where
  "pickProps ob keys =
     (case ob of
        None \<Rightarrow> []
      | Some p \<Rightarrow>
          foldl (\<lambda>ret k.
                   if obj_has k p
                   then AList.update k
                          (if obj_get p k = Null \<or> obj_get p k = Str [] then Undefined
                           else obj_get p k) ret
                   else ret) [] keys)"

section \<open>The tree of nodes\<close>

text \<open>
  The nodes of the tree are mutable objects that the handlers compare by identity
  (\<^verbatim>\<open>fromNode === vfs\<close>, \<^verbatim>\<open>children.indexOf(node)\<close>, \<^verbatim>\<open>_.pull(children, fromNode)\<close>), so the
  tree is a store of nodes indexed by address. A node is its own properties other than
  \<^verbatim>\<open>children\<close> (\<open>props\<close>), and its \<^verbatim>\<open>children\<close> array, a sequence of addresses, \<open>None\<close> when
  the node has no such property. The root, the module variable \<^verbatim>\<open>vfs\<close>, is at address 0.
  A new object takes the next free address; nothing is ever freed.
\<close>

record VfsNode =
  props :: obj
  children :: "addr list option"

type_synonym heap = "VfsNode list"

definition vfs :: addr where
  "vfs = 0"

definition deref :: "heap \<Rightarrow> addr \<Rightarrow> VfsNode" where
  "deref h a = (if a < length h then h ! a else \<lparr>props = [], children = None\<rparr>)"

definition nodeName :: "heap \<Rightarrow> addr \<Rightarrow> string" where
  "nodeName h a = getNodeName (props (deref h a))"

definition set_children :: "heap \<Rightarrow> addr \<Rightarrow> addr list option \<Rightarrow> heap" where
  "set_children h a cs = h[a := (deref h a)\<lparr>children := cs\<rparr>]"

definition set_props :: "heap \<Rightarrow> addr \<Rightarrow> obj \<Rightarrow> heap" where
  "set_props h a ps = h[a := (deref h a)\<lparr>props := ps\<rparr>]"

text \<open>Every reference held by the store points into the store, and the root exists.\<close>

definition wf_heap :: "heap \<Rightarrow> bool" where
  "wf_heap h =
     (h \<noteq> [] \<and>
      list_all (\<lambda>n. case children n of None \<Rightarrow> True
                     | Some cs \<Rightarrow> list_all (\<lambda>c. c < length h) cs) h)"

text \<open>
  What the handlers take from the platform and from modules that are not among the
  sources: the case policy for file names, the recognised permission keys
  (\<^verbatim>\<open>PERM_KEYS\<close> of \<^verbatim>\<open>misc.ts\<close>), and the file-system tests \<^verbatim>\<open>nodeIsDirectory\<close>,
  \<^verbatim>\<open>isDirectory\<close> (\<open>None\<close> for a path that does not exist) and \<^verbatim>\<open>isWindowsDrive\<close>.
\<close>

record env =
  caseInsensitive :: bool
  PERM_KEYS :: "string list"
  nodeIsDirectory :: "VfsNode \<Rightarrow> bool"
  isDirectory :: "string \<Rightarrow> bool option"
  isWindowsDrive :: "string \<Rightarrow> bool"

definition toLowerChar :: "char \<Rightarrow> char" where
  "toLowerChar c =
     (case map_of (zip ''ABCDEFGHIJKLMNOPQRSTUVWXYZ'' ''abcdefghijklmnopqrstuvwxyz'') c of
        None \<Rightarrow> c | Some l \<Rightarrow> l)"

definition toLowerCase :: "string \<Rightarrow> string" where
  "toLowerCase s = map toLowerChar s"

text \<open>A name as the platform compares it: in lower case where case does not count.\<close>

definition fold_case :: "env \<Rightarrow> string \<Rightarrow> string" where
  "fold_case e s = (if caseInsensitive e then toLowerCase s else s)"

text \<open>
  Modelled from the spec: \<^verbatim>\<open>isSameFilenameAs\<close> of \<^verbatim>\<open>vfs.ts\<close>, which is not among the
  sources. A node is same-named when its effective name is the given name under the
  platform's case policy for file names (letters of ASCII only in this model).
\<close>

definition isSameFilenameAs :: "env \<Rightarrow> string \<Rightarrow> obj \<Rightarrow> bool" where
  "isSameFilenameAs e name other = (fold_case e name = fold_case e (getNodeName other))"

subsection \<open>Resolution of a URI\<close>

text \<open>
  Modelled from the spec: the splitting of a virtual path into segments by \<^verbatim>\<open>urlToNode\<close>
  (\<^verbatim>\<open>vfs.ts\<close>, not among the sources). The segments are the non-empty pieces between
  separators, so that \<^verbatim>\<open>/\<close> has none.
\<close>

fun split_segments :: "string \<Rightarrow> string \<Rightarrow> string list" where
  "split_segments cur [] = (if cur = [] then [] else [rev cur])"
| "split_segments cur (c # cs) =
     (if c = slash
      then (if cur = [] then split_segments [] cs else rev cur # split_segments [] cs)
      else split_segments (c # cur) cs)"

definition segments :: "string \<Rightarrow> string list" where
  "segments uri = split_segments [] uri"

text \<open>
  Modelled from the spec: the walk of \<^verbatim>\<open>urlToNode\<close> from a node along the segments, each
  segment taking the first child that is same-named.
\<close>

fun walk :: "env \<Rightarrow> heap \<Rightarrow> addr \<Rightarrow> string list \<Rightarrow> addr option" where
  "walk e h a [] = Some a"
| "walk e h a (s # ss) =
     (case children (deref h a) of
        None \<Rightarrow> None
      | Some cs \<Rightarrow>
          (case find (\<lambda>c. isSameFilenameAs e s (props (deref h c))) cs of
             None \<Rightarrow> None
           | Some c \<Rightarrow> walk e h c ss))"

text \<open>
  The result of a resolution is the persisted node itself or a materialized wrapper
  (\<^verbatim>\<open>isTemp\<close>) that carries the persisted node as \<^verbatim>\<open>original\<close>, if it has one.
\<close>

datatype resolved = Persisted addr | Materialized "addr option"

text \<open>
  Modelled from the spec: \<^verbatim>\<open>urlToNode\<close> of \<^verbatim>\<open>vfs.ts\<close>, which is not among the sources.
  The path is split into segments and walked from the root, each segment matched against
  the effective names of the children; a path without segments is the root itself, never
  materialized; a node below the root comes as a materialized wrapper of the persisted
  node; a path that matches nothing is not found (\<open>None\<close>).
\<close>

definition urlToNode :: "env \<Rightarrow> heap \<Rightarrow> string \<Rightarrow> resolved option" where
  "urlToNode e h uri =
     (case segments uri of
        [] \<Rightarrow> Some (Persisted vfs)
      | s # ss \<Rightarrow> map_option (\<lambda>a. Materialized (Some a)) (walk e h vfs (s # ss)))"

text \<open>\<^verbatim>\<open>urlToNodeOriginal(uri)\<close>: \<^verbatim>\<open>n?.isTemp ? n.original : n\<close>.\<close>

definition urlToNodeOriginal :: "env \<Rightarrow> heap \<Rightarrow> string \<Rightarrow> addr option" where
  "urlToNodeOriginal e h uri =
     (case urlToNode e h uri of
        None \<Rightarrow> None
      | Some (Persisted a) \<Rightarrow> Some a
      | Some (Materialized original) \<Rightarrow> original)"

subsection \<open>Errors\<close>

text \<open>
  Modelled from the spec: the status constants of \<^verbatim>\<open>const.ts\<close>, which is not among the
  sources, with the values of the HTTP status codes they are named after.
\<close>

definition HTTP_BAD_REQUEST :: nat where "HTTP_BAD_REQUEST = 400"
definition HTTP_NOT_FOUND :: nat where "HTTP_NOT_FOUND = 404"
definition HTTP_NOT_ACCEPTABLE :: nat where "HTTP_NOT_ACCEPTABLE = 406"
definition HTTP_CONFLICT :: nat where "HTTP_CONFLICT = 409"
definition HTTP_SERVER_ERROR :: nat where "HTTP_SERVER_ERROR = 500"

text \<open>A handler fails by returning an \<^verbatim>\<open>ApiError\<close> (status and message) or by throwing.\<close>

datatype failure = ApiError nat string | TypeError

subsection \<open>\<^verbatim>\<open>move_vfs\<close>\<close>

text \<open>
  \<^verbatim>\<open>parentNode.children?.find(x => name === getNodeName(x))\<close>, as a truth value.
\<close>

definition has_child_named :: "heap \<Rightarrow> addr \<Rightarrow> string \<Rightarrow> bool" where
  "has_child_named h parent name =
     (case children (deref h parent) of
        None \<Rightarrow> False
      | Some cs \<Rightarrow> find (\<lambda>x. name = nodeName h x) cs \<noteq> None)"

text \<open>
  \<^verbatim>\<open>_.pull(oldParent.children, fromNode)\<close> removes every occurrence in place (and leaves a
  missing array missing); \<^verbatim>\<open>_.isEmpty\<close> holds of a missing and of an empty array, and then
  the property is deleted.
\<close>

definition detach :: "heap \<Rightarrow> addr \<Rightarrow> addr \<Rightarrow> heap" where
  "detach h oldParent fromNode =
     (let h1 = set_children h oldParent
                 (map_option (removeAll fromNode) (children (deref h oldParent)))
      in if children (deref h1 oldParent) = None \<or> children (deref h1 oldParent) = Some []
         then set_children h1 oldParent None
         else h1)"

text \<open>\<^verbatim>\<open>(parentNode.children ||= []).push(fromNode)\<close>.\<close>

definition push_child :: "heap \<Rightarrow> addr \<Rightarrow> addr \<Rightarrow> heap" where
  "push_child h parentNode fromNode =
     set_children h parentNode
       (Some ((case children (deref h parentNode) of None \<Rightarrow> [] | Some cs \<Rightarrow> cs) @ [fromNode]))"

text \<open>
  The handler, run alone. The arguments are \<open>None\<close> when missing; the result is the
  failure or the empty object, together with the store the handler leaves. A missing old
  parent makes \<^verbatim>\<open>oldParent!.children\<close> throw a \<^verbatim>\<open>TypeError\<close>.
\<close>

definition move_vfs ::
  "env \<Rightarrow> heap \<Rightarrow> string option \<Rightarrow> string option \<Rightarrow> (failure + unit) \<times> heap" where
  "move_vfs e h from parent =
     (case (from, parent) of
        (Some f, Some p) \<Rightarrow>
          if f = [] \<or> p = [] then (Inl (ApiError HTTP_BAD_REQUEST []), h)
          else
            (case urlToNodeOriginal e h f of
               None \<Rightarrow> (Inl (ApiError HTTP_NOT_FOUND ''from not found''), h)
             | Some fromNode \<Rightarrow>
                 if fromNode = vfs then (Inl (ApiError HTTP_BAD_REQUEST ''from is root''), h)
                 else
                   (case urlToNodeOriginal e h p of
                      None \<Rightarrow> (Inl (ApiError HTTP_NOT_FOUND ''parent not found''), h)
                    | Some parentNode \<Rightarrow>
                        let name = nodeName h fromNode in
                        if has_child_named h parentNode name
                        then (Inl (ApiError HTTP_CONFLICT
                                ''item with same name already present in destination''), h)
                        else
                          (case urlToNodeOriginal e h (dirname f) of
                             None \<Rightarrow> (Inl TypeError, h)
                           | Some oldParent \<Rightarrow>
                               (Inr (), push_child (detach h oldParent fromNode)
                                          parentNode fromNode))))
      | _ \<Rightarrow> (Inl (ApiError HTTP_BAD_REQUEST []), h))"

text \<open>The children sequence of a node, empty when the property is missing.\<close>

definition kids :: "heap \<Rightarrow> addr \<Rightarrow> addr list" where
  "kids h a = (case children (deref h a) of None \<Rightarrow> [] | Some cs \<Rightarrow> cs)"

subsection \<open>\<^verbatim>\<open>set_vfs\<close>\<close>

text \<open>The properties that \<^verbatim>\<open>set_vfs\<close> lets through (its argument to \<^verbatim>\<open>pickProps\<close>).\<close>

definition settable_keys :: "env \<Rightarrow> string list" where
  "settable_keys e = [''name'', ''source'', ''masks'', ''default'', ''accept''] @ PERM_KEYS e"

text \<open>
  \<^verbatim>\<open>parent?.children?.find(x => getNodeName(x) === props.name)\<close>, as a truth value; the
  parent is the node that \<^verbatim>\<open>dirname(uri)\<close> resolves to.
\<close>

definition sibling_has_name :: "env \<Rightarrow> heap \<Rightarrow> string \<Rightarrow> jsval \<Rightarrow> bool" where
  "sibling_has_name e h uri name =
     (case urlToNodeOriginal e h (dirname uri) of
        None \<Rightarrow> False
      | Some parent \<Rightarrow>
          (case children (deref h parent) of
             None \<Rightarrow> False
           | Some cs \<Rightarrow> find (\<lambda>x. Str (nodeName h x) = name) cs \<noteq> None))"

text \<open>
  The handler, run alone. The payload \<^verbatim>\<open>props\<close> is \<open>None\<close> when it is not an object. The
  result is the failure or the updated node, together with the store the handler leaves.
\<close>

definition set_vfs ::
  "env \<Rightarrow> heap \<Rightarrow> string \<Rightarrow> obj option \<Rightarrow> (failure + VfsNode) \<times> heap" where
  "set_vfs e h uri payload =
     (case urlToNodeOriginal e h uri of
        None \<Rightarrow> (Inl (ApiError HTTP_NOT_FOUND ''path not found''), h)
      | Some n \<Rightarrow>
          let picked = pickProps payload (settable_keys e) in
          if truthy (obj_get picked ''name'') \<and> obj_get picked ''name'' \<noteq> Str (nodeName h n)
             \<and> sibling_has_name e h uri (obj_get picked ''name'')
          then (Inl (ApiError HTTP_CONFLICT ''name already present''), h)
          else
            let sane = (if truthy (obj_get picked ''masks'')
                           \<and> \<not> typeof_object (obj_get picked ''masks'')
                        then AList.delete ''masks'' picked else picked);
                h' = set_props h n (simplifyName (object_assign (props (deref h n)) sane))
            in (Inr (deref h' n), h'))"

text \<open>
  The invariant of the tree: under every node, the effective names of the children are
  pairwise distinct.
\<close>

definition unique_names :: "heap \<Rightarrow> bool" where
  "unique_names h =
     list_all (\<lambda>n. case children n of None \<Rightarrow> True
                    | Some cs \<Rightarrow> distinct (map (nodeName h) cs)) h"

subsection \<open>\<^verbatim>\<open>add_vfs\<close>\<close>

text \<open>The decimal numeral of a natural number, as a template literal renders it.\<close>

definition digit_char :: "nat \<Rightarrow> char" where
  "digit_char d = ''0123456789'' ! d"

fun dec :: "nat \<Rightarrow> string" where
  "dec n = (if n < 10 then [digit_char n] else dec (n div 10) @ [digit_char (n mod 10)])"

declare dec.simps [simp del]

text \<open>\<^verbatim>\<open>parentNode.children?.find(isSameFilenameAs(name))\<close>, as a truth value.\<close>

definition name_taken :: "env \<Rightarrow> heap \<Rightarrow> addr \<Rightarrow> string \<Rightarrow> bool" where
  "name_taken e h parentNode name =
     (case children (deref h parentNode) of
        None \<Rightarrow> False
      | Some cs \<Rightarrow> find (\<lambda>c. isSameFilenameAs e name (props (deref h c))) cs \<noteq> None)"

text \<open>The template literal \<^verbatim>\<open>`${noExt} ${idx}${ext}`\<close>.\<close>

definition numbered :: "string \<Rightarrow> string \<Rightarrow> nat \<Rightarrow> string" where
  "numbered noExt ext idx = noExt @ '' '' @ dec idx @ ext"

text \<open>
  The loop \<^verbatim>\<open>while (parentNode.children?.find(isSameFilenameAs(name))) name = ...\<close> ends
  because the numbered names are pairwise different, also under the case policy, and the
  children are finitely many: the numbers from \<open>idx\<close> on whose name is taken get fewer
  with every round.
\<close>

lemma digit_char_inj: "a < 10 \<Longrightarrow> b < 10 \<Longrightarrow> digit_char a = digit_char b \<Longrightarrow> a = b"
proof -
  assume a: "a < 10" and b: "b < 10" and eq: "digit_char a = digit_char b"
  have d: "distinct ''0123456789''" by simp
  from a b have "a < length ''0123456789''" "b < length ''0123456789''" by simp_all
  with d eq show "a = b" by (simp add: digit_char_def nth_eq_iff_index_eq)
qed

lemma dec_nonempty: "dec n \<noteq> []"
  by (subst dec.simps) simp

lemma dec_inj: "dec m = dec n \<Longrightarrow> m = n"
proof (induction m arbitrary: n rule: dec.induct)
  case (1 m)
  show ?case
  proof (cases "m < 10")
    case True
    show ?thesis
    proof (cases "n < 10")
      case n: True
      from "1.prems" True n have "digit_char m = digit_char n"
        by (simp add: dec.simps [of m] dec.simps [of n])
      with True n show ?thesis by (rule digit_char_inj)
    next
      case False
      from "1.prems" True False have "[digit_char m] = dec (n div 10) @ [digit_char (n mod 10)]"
        by (simp add: dec.simps [of m] dec.simps [of n])
      then have "dec (n div 10) = []" by simp
      with dec_nonempty show ?thesis by blast
    qed
  next
    case False
    show ?thesis
    proof (cases "n < 10")
      case True
      from "1.prems" True False have "dec (m div 10) @ [digit_char (m mod 10)] = [digit_char n]"
        by (simp add: dec.simps [of m] dec.simps [of n])
      then have "dec (m div 10) = []" by simp
      with dec_nonempty show ?thesis by blast
    next
      case n: False
      from "1.prems" False n
      have "dec (m div 10) @ [digit_char (m mod 10)] = dec (n div 10) @ [digit_char (n mod 10)]"
        by (simp add: dec.simps [of m] dec.simps [of n])
      then have q: "dec (m div 10) = dec (n div 10)"
        and r: "digit_char (m mod 10) = digit_char (n mod 10)" by simp_all
      from "1.IH" [OF False q] have "m div 10 = n div 10" .
      moreover from r have "m mod 10 = n mod 10" by (auto intro: digit_char_inj)
      ultimately show ?thesis by (metis div_mult_mod_eq)
    qed
  qed
qed

lemma digit_char_lower: "d < 10 \<Longrightarrow> toLowerChar (digit_char d) = digit_char d"
proof -
  assume "d < 10"
  then have "d \<in> {0, 1, 2, 3, 4, 5, 6, 7, 8, 9}" by auto
  then show ?thesis
    by (auto simp: digit_char_def toLowerChar_def)
qed

lemma dec_lower: "toLowerCase (dec n) = dec n"
proof (induction n rule: dec.induct)
  case (1 n)
  show ?case
  proof (cases "n < 10")
    case True
    then show ?thesis by (simp add: dec.simps [of n] toLowerCase_def digit_char_lower)
  next
    case False
    with "1.IH" have "map toLowerChar (dec (n div 10)) = dec (n div 10)"
      by (simp add: toLowerCase_def)
    with False show ?thesis
      by (simp add: dec.simps [of n] toLowerCase_def digit_char_lower)
  qed
qed

lemma fold_case_numbered_inj:
  "fold_case e (numbered noExt ext i) = fold_case e (numbered noExt ext j) \<Longrightarrow> i = j"
proof -
  assume eq: "fold_case e (numbered noExt ext i) = fold_case e (numbered noExt ext j)"
  have "dec i = dec j"
  proof (cases "caseInsensitive e")
    case True
    with eq have "toLowerCase (dec i) = toLowerCase (dec j)"
      by (simp add: fold_case_def numbered_def toLowerCase_def)
    then show ?thesis by (simp add: dec_lower)
  next
    case False
    with eq show ?thesis by (simp add: fold_case_def numbered_def)
  qed
  then show ?thesis by (rule dec_inj)
qed

lemma name_taken_iff:
  "name_taken e h p name =
     (fold_case e name \<in> (\<lambda>c. fold_case e (nodeName h c)) ` set (kids h p))"
  by (auto simp: name_taken_def kids_def isSameFilenameAs_def nodeName_def find_None_iff
           split: option.splits)

lemma finite_taken_indices: "finite {j. name_taken e h p (numbered noExt ext j)}"
proof -
  let ?f = "\<lambda>j. fold_case e (numbered noExt ext j)"
  let ?S = "(\<lambda>c. fold_case e (nodeName h c)) ` set (kids h p)"
  have "inj ?f" by (rule injI) (rule fold_case_numbered_inj)
  moreover have "finite ?S" by simp
  ultimately have "finite (?f -` ?S)" by (rule finite_vimageI [rotated])
  moreover have "{j. name_taken e h p (numbered noExt ext j)} = ?f -` ?S"
    by (auto simp: name_taken_iff)
  ultimately show ?thesis by simp
qed

lemma card_taken_from:
  "card {j. idx \<le> j \<and> name_taken e h p (numbered noExt ext j)}
     = card {j. Suc idx \<le> j \<and> name_taken e h p (numbered noExt ext j)}
       + (if name_taken e h p (numbered noExt ext idx) then 1 else 0)"
proof -
  let ?A = "{j. Suc idx \<le> j \<and> name_taken e h p (numbered noExt ext j)}"
  have fin: "finite ?A"
    by (rule finite_subset [OF _ finite_taken_indices [of e h p noExt ext]]) auto
  show ?thesis
  proof (cases "name_taken e h p (numbered noExt ext idx)")
    case True
    then have "{j. idx \<le> j \<and> name_taken e h p (numbered noExt ext j)} = insert idx ?A"
      by (auto simp: le_Suc_eq)
    moreover have "idx \<notin> ?A" by simp
    ultimately show ?thesis using fin True by simp
  next
    case False
    then have "{j. idx \<le> j \<and> name_taken e h p (numbered noExt ext j)} = ?A"
      by (auto simp: le_Suc_eq) (metis le_antisym not_less_eq_eq)
    with False show ?thesis by simp
  qed
qed

function disambiguate ::
  "env \<Rightarrow> heap \<Rightarrow> addr \<Rightarrow> string \<Rightarrow> string \<Rightarrow> nat \<Rightarrow> string \<Rightarrow> string" where
  "disambiguate e h parentNode noExt ext idx name =
     (if name_taken e h parentNode name
      then disambiguate e h parentNode noExt ext (Suc idx) (numbered noExt ext idx)
      else name)"
  by pat_completeness auto
termination
proof (relation "measure (\<lambda>(e, h, p, noExt, ext, idx, name).
          card {j. idx \<le> j \<and> name_taken e h p (numbered noExt ext j)}
          + (if name_taken e h p name then 1 else 0))")
  show "wf (measure (\<lambda>(e, h, p, noExt, ext, idx, name).
          card {j. idx \<le> j \<and> name_taken e h p (numbered noExt ext j)}
          + (if name_taken e h p name then 1 else 0)))"
    by simp
next
  fix e h parentNode noExt ext idx name
  assume "name_taken e h parentNode name"
  then show "((e, h, parentNode, noExt, ext, Suc idx, numbered noExt ext idx),
              (e, h, parentNode, noExt, ext, idx, name))
             \<in> measure (\<lambda>(e, h, p, noExt, ext, idx, name).
                  card {j. idx \<le> j \<and> name_taken e h p (numbered noExt ext j)}
                  + (if name_taken e h p name then 1 else 0))"
    using card_taken_from [of idx e h parentNode noExt ext] by simp
qed

declare disambiguate.simps [simp del]


text \<open>A parameter of the request that may be missing, as a property value.\<close>

definition js_of :: "string option \<Rightarrow> jsval" where
  "js_of s = (case s of None \<Rightarrow> Undefined | Some v \<Rightarrow> Str v)"

text \<open>\<^verbatim>\<open>parent ? await urlToNodeOriginal(parent) : vfs\<close>.\<close>

definition add_parent :: "env \<Rightarrow> heap \<Rightarrow> string option \<Rightarrow> addr option" where
  "add_parent e h parent =
     (case parent of
        None \<Rightarrow> Some vfs
      | Some p \<Rightarrow> if p = [] then Some vfs else urlToNodeOriginal e h p)"

text \<open>\<^verbatim>\<open>if (isWindowsDrive(source)) source += '\\'\<close>.\<close>

definition add_source :: "env \<Rightarrow> string option \<Rightarrow> string option" where
  "add_source e source =
     (case source of
        None \<Rightarrow> None
      | Some s \<Rightarrow> if isWindowsDrive e s then Some (s @ [CHR 0x5C]) else Some s)"

text \<open>The object \<^verbatim>\<open>{ source, name }\<close> and the name computed for it.\<close>

definition new_child :: "env \<Rightarrow> string option \<Rightarrow> string option \<Rightarrow> obj" where
  "new_child e source name = [(''source'', js_of (add_source e source)), (''name'', js_of name)]"

text \<open>\<^verbatim>\<open>ext ? name.slice(0, -ext.length) : name\<close>.\<close>

definition without_ext :: "string \<Rightarrow> string" where
  "without_ext name =
     (if extname name \<noteq> [] then take (length name - length (extname name)) name else name)"

text \<open>
  The handler, run alone. The arguments are \<open>None\<close> when missing. The result is the
  failure or the \<^verbatim>\<open>name\<close> of the answer (its \<^verbatim>\<open>link\<close> is not modelled), together with the store
  the handler leaves; the new node takes the next free address.
\<close>

definition add_vfs ::
  "env \<Rightarrow> heap \<Rightarrow> string option \<Rightarrow> string option \<Rightarrow> string option
     \<Rightarrow> (failure + string) \<times> heap" where
  "add_vfs e h parent source name =
     (if (source = None \<or> source = Some []) \<and> (name = None \<or> name = Some [])
      then (Inl (ApiError HTTP_BAD_REQUEST ''name or source required''), h)
      else
        (case add_parent e h parent of
           None \<Rightarrow> (Inl (ApiError HTTP_NOT_FOUND ''parent not found''), h)
         | Some parentNode \<Rightarrow>
             if \<not> nodeIsDirectory e (deref h parentNode)
             then (Inl (ApiError HTTP_NOT_ACCEPTABLE ''parent not a folder''), h)
             else if (case add_source e source of
                        None \<Rightarrow> False
                      | Some s \<Rightarrow> s \<noteq> [] \<and> isDirectory e s = None)
             then (Inl (ApiError HTTP_NOT_FOUND ''source not found''), h)
             else
               let child = new_child e source name;
                   name1 = getNodeName child;
                   ext = extname name1;
                   noExt = without_ext name1;
                   name2 = disambiguate e h parentNode noExt ext 2 name1;
                   child' = simplifyName (AList.update ''name'' (Str name2) child);
                   h1 = h @ [\<lparr>props = child', children = None\<rparr>];
                   h2 = set_children h1 parentNode (Some (length h # kids h1 parentNode))
               in (Inr name2, h2)))"

subsection \<open>\<^verbatim>\<open>del_vfs\<close>\<close>

text \<open>\<^verbatim>\<open>children.indexOf(node)\<close>: the first position of the node, or \<open>-1\<close>.\<close>

fun indexOf :: "addr list \<Rightarrow> addr \<Rightarrow> int" where
  "indexOf [] x = - 1"
| "indexOf (y # ys) x =
     (if y = x then 0 else (let i = indexOf ys x in if i < 0 then - 1 else i + 1))"

text \<open>
  \<^verbatim>\<open>children.splice(idx, 1)\<close>: a negative start counts from the end (and not below 0), a
  start beyond the end is the end; one element is removed from the start, if there is one.
\<close>

definition splice1 :: "addr list \<Rightarrow> int \<Rightarrow> addr list" where
  "splice1 cs idx =
     (let len = int (length cs);
          start = (if idx < 0 then max (len + idx) 0 else min idx len)
      in take (nat start) cs @ drop (nat start + 1) cs)"

text \<open>
  The callback that \<^verbatim>\<open>del_vfs\<close> maps over the URIs is asynchronous: it runs up to the next
  \<^verbatim>\<open>await\<close> and then gives way, and \<^verbatim>\<open>Promise.all\<close> has all the callbacks in progress at
  once. A callback is modelled by the points where it can be: started on its URI; holding
  the node it resolved, about to resolve the parent (after
  \<^verbatim>\<open>await urlToNodeOriginal(uri)\<close>); holding the node and the outcome of resolving the
  parent (after \<^verbatim>\<open>await urlToNodeOriginal(parent)\<close>); finished with its code. \<open>del_step\<close> runs
  a callback from one point to the next on the store as it is at that moment.
\<close>

datatype del_task =
    Start jsval
  | GotNode string addr
  | GotParent addr "addr option"
  | Finished nat

fun del_step :: "env \<Rightarrow> heap \<Rightarrow> del_task \<Rightarrow> heap \<times> del_task" where
  "del_step e h (Start u) =
     (case u of
        Str uri \<Rightarrow>
          if uri = ''/'' then (h, Finished HTTP_NOT_ACCEPTABLE)
          else (case urlToNodeOriginal e h uri of
                  None \<Rightarrow> (h, Finished HTTP_NOT_FOUND)
                | Some node \<Rightarrow> (h, GotNode uri node))
      | _ \<Rightarrow> (h, Finished HTTP_BAD_REQUEST))"
| "del_step e h (GotNode uri node) =
     (h, GotParent node (urlToNodeOriginal e h (dirname uri)))"
| "del_step e h (GotParent node parentNode) =
     (case parentNode of
        None \<Rightarrow> (h, Finished HTTP_SERVER_ERROR)
      | Some p \<Rightarrow>
          (case children (deref h p) of
             None \<Rightarrow> (h, Finished HTTP_SERVER_ERROR)
           | Some cs \<Rightarrow>
               (set_children h p (Some (splice1 cs (indexOf cs node))), Finished 0)))"
| "del_step e h (Finished code) = (h, Finished code)"

text \<open>
  The callbacks in progress and the store they share; \<open>step_at i\<close> lets the callback of
  the \<open>i\<close>-th URI run to its next point. A schedule is the order in which the callbacks
  get their turns.
\<close>

definition step_at :: "env \<Rightarrow> nat \<Rightarrow> heap \<times> del_task list \<Rightarrow> heap \<times> del_task list" where
  "step_at e i st =
     (case st of
        (h, ts) \<Rightarrow>
          if i < length ts
          then (case del_step e h (ts ! i) of (h', t') \<Rightarrow> (h', ts[i := t']))
          else (h, ts))"

definition del_run :: "env \<Rightarrow> nat list \<Rightarrow> heap \<times> del_task list \<Rightarrow> heap \<times> del_task list" where
  "del_run e sched st = fold (step_at e) sched st"

text \<open>Three turns for every callback, one callback after the other.\<close>

definition run_out :: "nat \<Rightarrow> nat list" where
  "run_out n = concat (map (\<lambda>i. [i, i, i]) [0..<n])"

definition task_code :: "del_task \<Rightarrow> nat option" where
  "task_code t = (case t of Finished code \<Rightarrow> Some code | _ \<Rightarrow> None)"

text \<open>
  The handler. The argument is \<open>None\<close> when \<^verbatim>\<open>uris\<close> is missing or not an array. The turns
  are taken in the order \<open>sched\<close>, any order at all, after which every callback that is not
  finished is run to its end; the answer has the codes of the finished callbacks, in the
  order of the URIs. A callback alone on the store is \<open>del_one\<close>.
\<close>

definition del_vfs ::
  "env \<Rightarrow> nat list \<Rightarrow> heap \<Rightarrow> jsval list option \<Rightarrow> (failure + nat list) \<times> heap" where
  "del_vfs e sched h uris =
     (case uris of
        None \<Rightarrow> (Inl (ApiError HTTP_BAD_REQUEST ''invalid uris''), h)
      | Some us \<Rightarrow>
          (case del_run e (sched @ run_out (length us)) (h, map Start us) of
             (h', ts) \<Rightarrow> (Inr (List.map_filter task_code ts), h')))"

definition run_task :: "env \<Rightarrow> heap \<times> del_task \<Rightarrow> heap \<times> del_task" where
  "run_task e st =
     (case st of
        (h, t) \<Rightarrow>
          (case del_step e h t of
             (h1, t1) \<Rightarrow> (case del_step e h1 t1 of (h2, t2) \<Rightarrow> del_step e h2 t2)))"

definition del_one :: "env \<Rightarrow> heap \<Rightarrow> jsval \<Rightarrow> heap \<times> del_task" where
  "del_one e h u = run_task e (h, Start u)"

text \<open>
  What a URI allows its callback to be: any point on the way of that URI, or finished
  with a code that the URI can yield.
\<close>

definition task_for :: "jsval \<Rightarrow> del_task \<Rightarrow> bool" where
  "task_for u t =
     (case t of
        Start u' \<Rightarrow> u' = u
      | GotNode uri node \<Rightarrow> u = Str uri \<and> uri \<noteq> ''/''
      | GotParent node p \<Rightarrow> (\<exists>uri. u = Str uri \<and> uri \<noteq> ''/'')
      | Finished code \<Rightarrow>
          (case u of
             Str uri \<Rightarrow> if uri = ''/'' then code = HTTP_NOT_ACCEPTABLE
                        else code = HTTP_NOT_FOUND \<or> code = HTTP_SERVER_ERROR \<or> code = 0
           | _ \<Rightarrow> code = HTTP_BAD_REQUEST))"

definition is_finished :: "del_task \<Rightarrow> bool" where
  "is_finished t = (task_code t \<noteq> None)"

text \<open>
  Two ways to look at a batch. The list without its \<open>j\<close>-th entry, with the schedule
  without the turns of the \<open>j\<close>-th callback (the callbacks after it move up by one place):
  the request as it would be had that URI not been sent. And one turn of one callback that
  is not finished, as a relation between the states before and after it.
\<close>

definition without_entry :: "nat \<Rightarrow> 'a list \<Rightarrow> 'a list" where
  "without_entry j xs = take j xs @ drop (Suc j) xs"

definition without_turns :: "nat \<Rightarrow> nat list \<Rightarrow> nat list" where
  "without_turns j sched = map (\<lambda>i. if j < i then i - 1 else i) (filter (\<lambda>i. i \<noteq> j) sched)"

definition del_turn :: "env \<Rightarrow> heap \<times> del_task list \<Rightarrow> heap \<times> del_task list \<Rightarrow> bool" where
  "del_turn e st st' =
     list_ex (\<lambda>i. \<not> is_finished (snd st ! i) \<and> st' = step_at e i st) [0..<length (snd st)]"

subsection \<open>\<^verbatim>\<open>get_vfs\<close>: the masks of a node\<close>

text \<open>
  Of the function \<^verbatim>\<open>recur\<close> inside \<^verbatim>\<open>get_vfs\<close>, the part that classifies the permission
  fields of one node. The node is given by its own properties, the properties of its
  \<^verbatim>\<open>original\<close> (\<open>None\<close> when it has none) and the snapshot \<open>inherited\<close>, which the code takes
  from \<^verbatim>\<open>permsFromParent\<close> (\<^verbatim>\<open>vfs.ts\<close>, not among the sources; \<open>None\<close> when there is no parent
  or nothing is inherited). \<open>byMasks\<close> is the value of
  \<^verbatim>\<open>node.original && _.pickBy(node, (v,k) => ...)\<close> and \<open>get_vfs_byMasks\<close> is the field
  \<^verbatim>\<open>byMasks\<close> of the answer, \<^verbatim>\<open>_.isEmpty(byMasks) ? undefined : byMasks\<close>.
\<close>

definition byMasks :: "env \<Rightarrow> obj \<Rightarrow> obj option \<Rightarrow> obj option \<Rightarrow> obj option" where
  "byMasks e node original inherited =
     (case original of
        None \<Rightarrow> None
      | Some orig \<Rightarrow>
          Some (pickBy node
                  (\<lambda>v k. v \<noteq> obj_get orig k
                         \<and> \<not> (case inherited of None \<Rightarrow> False | Some inh \<Rightarrow> obj_has k inh)
                         \<and> k \<in> set (PERM_KEYS e))))"

definition get_vfs_byMasks :: "env \<Rightarrow> obj \<Rightarrow> obj option \<Rightarrow> obj option \<Rightarrow> obj option" where
  "get_vfs_byMasks e node original inherited =
     (case byMasks e node original inherited of
        None \<Rightarrow> None
      | Some picked \<Rightarrow> if picked = [] then None else Some picked)"

subsection \<open>\<^verbatim>\<open>get_ls\<close>\<close>

text \<open>
  What the lister takes from the file system and from the request: the platform flag,
  the drives (\<open>None\<close> when \<^verbatim>\<open>getDrives\<close> throws), \<^verbatim>\<open>path.resolve\<close>, the entries that
  \<^verbatim>\<open>dirStream\<close> yields for a path, each a name and whether it is a directory (or the code of
  the error it throws), \<^verbatim>\<open>stat\<close> of an entry of the listed directory (\<open>None\<close> when it
  throws), the matcher that \<^verbatim>\<open>makeMatcher\<close> builds from the mask, and whether the request
  is found aborted when the entry at a given position arrives.
\<close>

record stats =
  st_size :: int
  st_ctime :: int
  st_mtime :: int

record lister =
  IS_WINDOWS :: bool
  getDrives :: "string list option"
  resolve :: "string \<Rightarrow> string"
  dirStream :: "string \<Rightarrow> string + (string \<times> bool) list"
  stat :: "string \<Rightarrow> stats option"
  makeMatcher :: "string option \<Rightarrow> string \<Rightarrow> bool"
  aborted :: "nat \<Rightarrow> bool"

text \<open>An element of the list sent: the fields \<^verbatim>\<open>n\<close>, \<^verbatim>\<open>s\<close>, \<^verbatim>\<open>c\<close>, \<^verbatim>\<open>m\<close> and \<^verbatim>\<open>k\<close>.\<close>

record ls_entry =
  entry_n :: string
  entry_s :: "int option"
  entry_c :: "int option"
  entry_m :: "int option"
  entry_k :: "string option"

text \<open>How the list ends: closed, failed with a reason, or left as it is by a return.\<close>

datatype ls_end = Closed | Failed string | Returned

text \<open>
  The loop over the directory stream, from the entry at position \<open>i\<close> on. It yields the
  entries added and whether the stream was read to its end.
\<close>

fun ls_loop ::
  "lister \<Rightarrow> bool \<Rightarrow> string option \<Rightarrow> (string \<Rightarrow> bool) \<Rightarrow> nat \<Rightarrow> (string \<times> bool) list
     \<Rightarrow> ls_entry list \<times> bool" where
  "ls_loop L files fileMask matching i [] = ([], True)"
| "ls_loop L files fileMask matching i ((name, isDir) # rest) =
     (if aborted L i then ([], False)
      else if \<not> isDir \<and> (\<not> files \<or> (fileMask \<noteq> None \<and> fileMask \<noteq> Some [] \<and> \<not> matching name))
      then ls_loop L files fileMask matching (Suc i) rest
      else
        (case stat L name of
           None \<Rightarrow> ls_loop L files fileMask matching (Suc i) rest
         | Some st \<Rightarrow>
             (case ls_loop L files fileMask matching (Suc i) rest of
                (added, finished) \<Rightarrow>
                  (\<lparr>entry_n = name, entry_s = Some (st_size st), entry_c = Some (st_ctime st),
                    entry_m = Some (st_mtime st),
                    entry_k = (if isDir then Some ''d'' else None)\<rparr> # added, finished))))"

text \<open>
  The directory that is listed: \<^verbatim>\<open>isWindowsDrive(path) ? path + '\\' : resolve(path || '/')\<close>.
\<close>

definition listed_path :: "env \<Rightarrow> lister \<Rightarrow> string option \<Rightarrow> string" where
  "listed_path e L path =
     (case path of
        None \<Rightarrow> resolve L ''/''
      | Some p \<Rightarrow>
          if isWindowsDrive e p then p @ [CHR 0x5C]
          else resolve L (if p = [] then ''/'' else p))"

text \<open>
  \<^verbatim>\<open>get_ls({ path, files=true, fileMask })\<close>: the entries added to the list and how it ends.
  \<open>files\<close> is \<open>None\<close> when the parameter is not given. Without a path on Windows the
  drives are listed instead.
\<close>

definition get_ls ::
  "env \<Rightarrow> lister \<Rightarrow> string option \<Rightarrow> bool option \<Rightarrow> string option \<Rightarrow> ls_entry list \<times> ls_end" where
  "get_ls e L path files fileMask =
     (if (path = None \<or> path = Some []) \<and> IS_WINDOWS L
      then (case getDrives L of
              None \<Rightarrow> ([], Returned)
            | Some drives \<Rightarrow>
                (map (\<lambda>d. \<lparr>entry_n = d, entry_s = None, entry_c = None, entry_m = None,
                           entry_k = Some ''d''\<rparr>) drives, Returned))
      else
        let matching = makeMatcher L fileMask in
        case dirStream L (listed_path e L path) of
          Inl code \<Rightarrow> ([], Failed code)
        | Inr entries \<Rightarrow>
            (case ls_loop L (case files of None \<Rightarrow> True | Some f \<Rightarrow> f) fileMask matching 0
                    entries of
               (added, finished) \<Rightarrow> (added, if finished then Closed else Returned)))"

text \<open>The entries of a list that are directories (\<^verbatim>\<open>k: 'd'\<close>), and those that are files.\<close>

definition directories :: "ls_entry list \<Rightarrow> ls_entry list" where
  "directories es = filter (\<lambda>x. entry_k x = Some ''d'') es"

definition plain_files :: "ls_entry list \<Rightarrow> ls_entry list" where
  "plain_files es = filter (\<lambda>x. entry_k x \<noteq> Some ''d'') es"

section \<open>Example data\<close>

text \<open>
  A case-sensitive platform on which every node is a folder and every path exists as a
  file, and a small tree: the root with the children \<^verbatim>\<open>a\<close> (address 1) and \<^verbatim>\<open>b\<close> (address 2,
  mapped to \<^verbatim>\<open>/x/b\<close>), and \<^verbatim>\<open>c\<close> (address 3) below \<^verbatim>\<open>b\<close>.
\<close>

definition example_env :: env where
  "example_env =
     \<lparr>caseInsensitive = False,
      PERM_KEYS = [''can_read'', ''can_see'', ''can_upload'', ''can_delete''],
      nodeIsDirectory = (\<lambda>n. True),
      isDirectory = (\<lambda>s. Some False),
      isWindowsDrive = (\<lambda>s. False)\<rparr>"

definition example_tree :: heap where
  "example_tree =
     [\<lparr>props = [], children = Some [1, 2]\<rparr>,
      \<lparr>props = [(''name'', Str ''a'')], children = None\<rparr>,
      \<lparr>props = [(''source'', Str ''/x/b'')], children = Some [3]\<rparr>,
      \<lparr>props = [(''name'', Str ''c'')], children = None\<rparr>]"

text \<open>
  A root with two mapped children: \<^verbatim>\<open>/x/foo\<close> (address 1, shown as \<^verbatim>\<open>foo\<close>) and \<^verbatim>\<open>/y/foo\<close>
  (address 2), which carries the explicit name \<^verbatim>\<open>bar\<close>.
\<close>

definition renamed_tree :: heap where
  "renamed_tree =
     [\<lparr>props = [], children = Some [1, 2]\<rparr>,
      \<lparr>props = [(''source'', Str ''/x/foo'')], children = None\<rparr>,
      \<lparr>props = [(''name'', Str ''bar''), (''source'', Str ''/y/foo'')], children = None\<rparr>]"

text \<open>
  A materialized node whose original has \<^verbatim>\<open>can_see\<close> but not \<^verbatim>\<open>can_read\<close>: \<^verbatim>\<open>can_read\<close> comes
  from the parent (it is in the inherited snapshot), \<^verbatim>\<open>can_see\<close> was changed by a mask.
\<close>

definition masked_node :: obj where
  "masked_node = [(''source'', Str ''/x''), (''can_see'', Bool False), (''can_read'', Bool True)]"

definition masked_original :: obj where
  "masked_original = [(''source'', Str ''/x''), (''can_see'', Bool True)]"

definition masked_inherited :: obj where
  "masked_inherited = [(''can_read'', Bool True)]"

text \<open>
  A directory with two folders and two files, every one with metadata, listed by a
  request that is never aborted, with a matcher that matches no name.
\<close>

definition example_lister :: lister where
  "example_lister =
     \<lparr>IS_WINDOWS = False, getDrives = None, resolve = (\<lambda>p. p),
      dirStream = (\<lambda>p. Inr [(''docs'', True), (''a.txt'', False), (''pics'', True),
                             (''b.jpg'', False)]),
      stat = (\<lambda>name. Some \<lparr>st_size = 1, st_ctime = 2, st_mtime = 3\<rparr>),
      makeMatcher = (\<lambda>mask name. False),
      aborted = (\<lambda>i. False)\<rparr>"




definition emptied_tree :: heap where
  "emptied_tree = [\<lparr>props = [], children = Some []\<rparr>]"

section \<open>Properties of the helpers\<close>

lemma obj_get_delete_same: "obj_get (AList.delete k ob) k = Undefined"
  by (simp add: obj_get_def AList.delete_conv')

lemma obj_get_delete_other: "k' \<noteq> k \<Longrightarrow> obj_get (AList.delete k ob) k' = obj_get ob k'"
  by (simp add: obj_get_def)

lemma obj_get_update: "obj_get (AList.update k v ob) k' = (if k' = k then v else obj_get ob k')"
  by (simp add: obj_get_def AList.update_conv')

lemma obj_has_delete: "obj_has k' (AList.delete k ob) = (k' \<noteq> k \<and> obj_has k' ob)"
  by (auto simp: obj_has_def AList.delete_keys)

lemma obj_has_update: "obj_has k' (AList.update k v ob) = (k' = k \<or> obj_has k' ob)"
  using AList.dom_update [of k v ob] by (auto simp: obj_has_def)

text \<open>
  C7. \<^verbatim>\<open>simplifyName\<close> is idempotent, and it removes the property \<^verbatim>\<open>name\<close> exactly when the
  effective name of the node without its \<^verbatim>\<open>name\<close> (the base name of \<^verbatim>\<open>source\<close>) equals the
  stored explicit name; otherwise the node is returned as it is.
\<close>

theorem simplifyName_idempotent:
  "simplifyName (simplifyName node) = simplifyName node
   \<and> simplifyName node =
       (if obj_get node ''name'' = Str (getNodeName (AList.delete ''name'' node))
        then AList.delete ''name'' node else node)
   \<and> (obj_has ''name'' node \<and> \<not> obj_has ''name'' (simplifyName node))
       = (obj_has ''name'' node
          \<and> obj_get node ''name'' = Str (getNodeName (AList.delete ''name'' node)))"
proof -
  have idem: "simplifyName (simplifyName node) = simplifyName node"
    by (simp add: simplifyName_def Let_def obj_get_delete_same AList.delete_idem)
  have char: "simplifyName node =
       (if obj_get node ''name'' = Str (getNodeName (AList.delete ''name'' node))
        then AList.delete ''name'' node else node)"
    by (auto simp: simplifyName_def Let_def)
  have drop: "(obj_has ''name'' node \<and> \<not> obj_has ''name'' (simplifyName node))
       = (obj_has ''name'' node
          \<and> obj_get node ''name'' = Str (getNodeName (AList.delete ''name'' node)))"
    by (auto simp: char obj_has_delete)
  from idem char drop show ?thesis by blast
qed

section \<open>Properties of the store and of resolution\<close>

lemma length_set_children: "length (set_children h a cs) = length h"
  by (simp add: set_children_def)

lemma deref_set_children:
  "deref (set_children h a cs) b =
     (if b = a \<and> a < length h then (deref h a)\<lparr>children := cs\<rparr> else deref h b)"
  by (auto simp: set_children_def deref_def)

lemma wf_heap_child:
  "wf_heap h \<Longrightarrow> children (deref h a) = Some cs \<Longrightarrow> c \<in> set cs \<Longrightarrow> c < length h"
  by (auto simp: wf_heap_def deref_def list_all_iff split: if_splits option.splits dest!: nth_mem)

lemma walk_valid:
  "wf_heap h \<Longrightarrow> a < length h \<Longrightarrow> walk e h a ss = Some b \<Longrightarrow> b < length h"
proof (induction ss arbitrary: a)
  case Nil
  then show ?case by simp
next
  case (Cons s ss)
  from Cons.prems(3) obtain cs c where cs: "children (deref h a) = Some cs"
    and c: "find (\<lambda>c. isSameFilenameAs e s (props (deref h c))) cs = Some c"
    and w: "walk e h c ss = Some b"
    by (auto split: option.splits)
  from c have "c \<in> set cs" by (auto simp: find_Some_iff)
  with Cons.prems(1) cs have "c < length h" by (rule wf_heap_child)
  with Cons.IH Cons.prems(1) w show ?case by blast
qed

lemma urlToNodeOriginal_valid:
  assumes "wf_heap h" and "urlToNodeOriginal e h u = Some a"
  shows "a < length h"
proof -
  from assms(1) have root: "vfs < length h" by (simp add: wf_heap_def vfs_def)
  show ?thesis
  proof (cases "segments u")
    case Nil
    with assms(2) root show ?thesis
      by (simp add: urlToNodeOriginal_def urlToNode_def)
  next
    case (Cons s ss)
    with assms(2) have "walk e h vfs (s # ss) = Some a"
      by (auto simp: urlToNodeOriginal_def urlToNode_def split: option.splits)
    with assms(1) root show ?thesis by (rule walk_valid)
  qed
qed

lemma deref_detach:
  "deref (detach h op f) b =
     (if b = op \<and> op < length h
      then (deref h op)\<lparr>children :=
             (case children (deref h op) of None \<Rightarrow> None
              | Some cs \<Rightarrow> if removeAll f cs = [] then None else Some (removeAll f cs))\<rparr>
      else deref h b)"
  by (auto simp: detach_def Let_def deref_set_children length_set_children split: option.splits)

lemma length_detach: "length (detach h op f) = length h"
  by (simp add: detach_def Let_def length_set_children)

lemma deref_push_child:
  "deref (push_child h p f) b =
     (if b = p \<and> p < length h
      then (deref h p)\<lparr>children :=
             Some ((case children (deref h p) of None \<Rightarrow> [] | Some cs \<Rightarrow> cs) @ [f])\<rparr>
      else deref h b)"
  by (simp add: push_child_def deref_set_children)

lemma length_push_child: "length (push_child h p f) = length h"
  by (simp add: push_child_def length_set_children)

lemma move_vfs_InrD:
  assumes "move_vfs e h from parent = (Inr u, h')"
  shows "\<exists>f p fromNode parentNode oldParent.
           from = Some f \<and> parent = Some p \<and> f \<noteq> [] \<and> p \<noteq> []
           \<and> urlToNodeOriginal e h f = Some fromNode \<and> fromNode \<noteq> vfs
           \<and> urlToNodeOriginal e h p = Some parentNode
           \<and> \<not> has_child_named h parentNode (nodeName h fromNode)
           \<and> urlToNodeOriginal e h (dirname f) = Some oldParent
           \<and> h' = push_child (detach h oldParent fromNode) parentNode fromNode"
  using assms
  by (auto simp: move_vfs_def Let_def split: option.splits if_splits)

text \<open>
  The parent of a rooted URI. For a URI that begins with a separator and has a segment,
  the segments of \<^verbatim>\<open>dirname(uri)\<close> are the segments of the URI without the last one, so
  what the URI resolves to is a child of what \<^verbatim>\<open>dirname(uri)\<close> resolves to.
\<close>

lemma rev_takeWhile_suffix:
  "rev (dropWhile P (rev xs)) @ rev (takeWhile P (rev xs)) = xs"
proof -
  have "rev (takeWhile P (rev xs) @ dropWhile P (rev xs)) = xs" by simp
  then show ?thesis by (simp only: rev_append)
qed

lemma last_rev_dropWhile:
  "rev (dropWhile P xs) = [] \<or> \<not> P (last (rev (dropWhile P xs)))"
proof (cases "dropWhile P xs = []")
  case True
  then show ?thesis by simp
next
  case False
  then have "\<not> P (hd (dropWhile P xs))" by (rule hd_dropWhile)
  with False show ?thesis by (simp add: last_rev)
qed

lemma split_segments_plain:
  "slash \<notin> set xs \<Longrightarrow> split_segments cur (xs @ ys) = split_segments (rev xs @ cur) ys"
  by (induction xs arbitrary: cur) auto

lemma split_segments_slashes:
  "set t \<subseteq> {slash} \<Longrightarrow> split_segments cur t = (if cur = [] then [] else [rev cur])"
  by (induction t arbitrary: cur) auto

lemma split_segments_snoc_slash:
  "split_segments cur (a @ [slash]) = split_segments cur a"
  by (induction a arbitrary: cur) auto

lemma split_segments_at_slash:
  "split_segments cur (a @ slash # b) = split_segments cur (a @ [slash]) @ split_segments [] b"
  by (induction a arbitrary: cur) auto

lemma segments_append:
  assumes "a = [] \<or> last a = slash"
  shows "segments (a @ b) = segments a @ segments b"
proof (cases "a = []")
  case True
  then show ?thesis by (simp add: segments_def)
next
  case False
  with assms obtain a' where a: "a = a' @ [slash]"
    by (cases a rule: rev_cases) auto
  have "split_segments [] (a' @ slash # b) = split_segments [] (a' @ [slash]) @ split_segments [] b"
    by (rule split_segments_at_slash)
  then show ?thesis by (simp add: segments_def a)
qed

lemma segments_last_part:
  assumes "seg \<noteq> []" and "slash \<notin> set seg" and "set trail \<subseteq> {slash}"
  shows "segments (seg @ trail) = [seg]"
  using assms
  by (simp add: segments_def split_segments_plain split_segments_slashes)

lemma segments_butlast_slash:
  assumes "pre \<noteq> []" and "last pre = slash"
  shows "segments (butlast pre) = segments pre"
proof -
  from assms have "pre = butlast pre @ [slash]" by (metis append_butlast_last_id)
  then have "segments pre = split_segments [] (butlast pre @ [slash])"
    by (simp add: segments_def)
  then show ?thesis by (simp add: split_segments_snoc_slash segments_def)
qed

lemma segments_dirname:
  assumes root: "u \<noteq> []" "hd u = slash" and some: "segments u \<noteq> []"
  shows "segments (dirname u) = butlast (segments u)"
proof -
  let ?rest = "dropWhile (\<lambda>c. c = slash) (rev u)"
  define trail where "trail = rev (takeWhile (\<lambda>c. c = slash) (rev u))"
  define seg where "seg = rev (takeWhile (\<lambda>c. c \<noteq> slash) ?rest)"
  define pre where "pre = rev (dropWhile (\<lambda>c. c \<noteq> slash) ?rest)"
  have u1: "rev ?rest @ trail = u"
    unfolding trail_def by (rule rev_takeWhile_suffix)
  have u2: "pre @ seg = rev ?rest"
    using rev_takeWhile_suffix [of "\<lambda>c. c \<noteq> slash" "rev ?rest"]
    by (simp add: pre_def seg_def)
  from u1 u2 have u: "u = pre @ seg @ trail" by (metis append_assoc)
  have trail: "set trail \<subseteq> {slash}"
    by (auto simp: trail_def dest: set_takeWhileD)
  have noslash: "slash \<notin> set seg"
    by (auto simp: seg_def dest: set_takeWhileD)
  have seg: "seg \<noteq> []"
  proof
    assume "seg = []"
    then have "takeWhile (\<lambda>c. c \<noteq> slash) ?rest = []" by (simp add: seg_def)
    then have "?rest = [] \<or> hd ?rest = slash" by (simp add: takeWhile_eq_Nil_iff)
    moreover have "?rest \<noteq> [] \<longrightarrow> hd ?rest \<noteq> slash"
      using hd_dropWhile [of "\<lambda>c. c = slash" "rev u"] by simp
    ultimately have "?rest = []" by blast
    with u1 have "u = trail" by simp
    with trail have "segments u = []" by (simp add: segments_def split_segments_slashes)
    with some show False by contradiction
  qed
  have pre_end: "pre = [] \<or> last pre = slash"
    using last_rev_dropWhile [of "\<lambda>c. c \<noteq> slash" ?rest] by (simp add: pre_def)
  have pre: "pre \<noteq> []"
  proof
    assume "pre = []"
    with u seg have "hd u = hd seg" by simp
    with root(2) seg noslash show False by (cases seg) auto
  qed
  from pre_end pre have last_pre: "last pre = slash" by simp
  from pre root(2) u have hd_pre: "hd pre = slash" by (cases pre) auto
  have all: "segments u = segments pre @ [seg]"
    using segments_append [OF pre_end, of "seg @ trail"]
      segments_last_part [OF seg noslash trail] u by simp
  have len: "length (dropWhile (\<lambda>c. c \<noteq> slash) ?rest) = length pre"
    by (simp add: pre_def)
  have take: "take (length pre - 1) u = butlast pre"
    using u by (simp add: butlast_conv_take)
  have dir: "segments (dirname u) = segments pre"
  proof (cases "length pre \<le> 1")
    case True
    with pre hd_pre have "pre = [slash]" by (cases pre) auto
    moreover from True root have "dirname u = ''/''"
      by (simp add: dirname_def Let_def len)
    ultimately show ?thesis by (simp add: segments_def slash_def)
  next
    case False
    show ?thesis
    proof (cases "length pre - 1 = 1")
      case True
      then have "length pre = 2" by simp
      then obtain a b where "pre = [a, b]"
        by (cases pre) (auto simp: length_Suc_conv)
      with hd_pre last_pre have p: "pre = [slash, slash]" by simp
      from True False root have "dirname u = ''//''"
        by (simp add: dirname_def Let_def len)
      with p show ?thesis by (simp add: segments_def slash_def)
    next
      case F2: False
      with False root have "dirname u = take (length pre - 1) u"
        by (simp add: dirname_def Let_def len)
      with take have "dirname u = butlast pre" by simp
      with segments_butlast_slash [OF pre last_pre] show ?thesis by simp
    qed
  qed
  from dir all show ?thesis by simp
qed


lemma walk_snoc:
  "walk e h a (ss @ [s]) = Some f \<Longrightarrow>
   \<exists>op. walk e h a ss = Some op \<and> f \<in> set (kids h op)"
proof (induction ss arbitrary: a)
  case Nil
  then show ?case
    by (auto simp: kids_def find_Some_iff split: option.splits)
next
  case (Cons s' ss)
  then show ?case by (auto split: option.splits)
qed

lemma urlToNodeOriginal_walk:
  "urlToNodeOriginal e h u = (if segments u = [] then Some vfs else walk e h vfs (segments u))"
  by (cases "segments u") (auto simp: urlToNodeOriginal_def urlToNode_def split: option.splits)

lemma resolved_parent:
  assumes "u \<noteq> []" "hd u = slash" and "segments u \<noteq> []"
    and "urlToNodeOriginal e h u = Some f"
  shows "\<exists>op. urlToNodeOriginal e h (dirname u) = Some op \<and> f \<in> set (kids h op)"
proof -
  from assms(3,4) have w: "walk e h vfs (segments u) = Some f"
    by (simp add: urlToNodeOriginal_walk)
  from assms(3) have "segments u = butlast (segments u) @ [last (segments u)]" by simp
  with w have "walk e h vfs (butlast (segments u) @ [last (segments u)]) = Some f" by simp
  from walk_snoc [OF this] obtain op where
    op: "walk e h vfs (butlast (segments u)) = Some op" and f: "f \<in> set (kids h op)" by blast
  from segments_dirname [OF assms(1,2,3)] op
  have "urlToNodeOriginal e h (dirname u) = Some op"
    by (cases "butlast (segments u) = []") (auto simp: urlToNodeOriginal_walk)
  with f show ?thesis by blast
qed


lemma has_child_named_iff:
  "has_child_named h p name = (name \<in> nodeName h ` set (kids h p))"
  by (auto simp: has_child_named_def kids_def find_None_iff split: option.splits)

lemma move_vfs_rooted_old_parent:
  assumes wf: "wf_heap h" and ok: "move_vfs e h (Some f) parent = (Inr u, h')"
    and rooted: "hd f = slash"
    and rf: "urlToNodeOriginal e h f = Some fromNode"
    and rp: "parent = Some p \<and> urlToNodeOriginal e h p = Some parentNode"
    and ro: "urlToNodeOriginal e h (dirname f) = Some oldParent"
  shows "fromNode \<in> set (kids h oldParent) \<and> oldParent \<noteq> parentNode"
proof -
  from move_vfs_InrD [OF ok] rf rp
  have ne: "f \<noteq> []" and nr: "fromNode \<noteq> vfs"
    and free: "\<not> has_child_named h parentNode (nodeName h fromNode)"
    by auto
  from rf nr have segs: "segments f \<noteq> []"
    by (auto simp: urlToNodeOriginal_walk split: if_splits)
  from resolved_parent [OF ne rooted segs rf] ro
  have child: "fromNode \<in> set (kids h oldParent)" by simp
  then have "has_child_named h oldParent (nodeName h fromNode)"
    by (auto simp: has_child_named_iff)
  with free have "oldParent \<noteq> parentNode" by blast
  with child show ?thesis by blast
qed


section \<open>Moving a node\<close>

text \<open>
  C5. Every failing \<^verbatim>\<open>move_vfs\<close> leaves the tree as it was. The failures are: bad request
  when \<^verbatim>\<open>from\<close> or \<^verbatim>\<open>parent\<close> is missing or empty, not found when \<^verbatim>\<open>from\<close> does not resolve,
  bad request when \<^verbatim>\<open>from\<close> resolves to the root, not found when \<^verbatim>\<open>parent\<close> does not
  resolve, and conflict when the destination already has a child with the effective name
  of the moved node (the checks are made in this order).
\<close>

theorem move_vfs_failure_leaves_tree:
  "(\<forall>err. fst (move_vfs e h from parent) = Inl err \<longrightarrow> snd (move_vfs e h from parent) = h)
   \<and> (from = None \<or> from = Some [] \<or> parent = None \<or> parent = Some []
        \<longrightarrow> fst (move_vfs e h from parent) = Inl (ApiError HTTP_BAD_REQUEST []))
   \<and> (\<forall>f p. from = Some f \<and> parent = Some p \<and> f \<noteq> [] \<and> p \<noteq> [] \<longrightarrow>
        (urlToNodeOriginal e h f = None
           \<longrightarrow> fst (move_vfs e h from parent) = Inl (ApiError HTTP_NOT_FOUND ''from not found''))
        \<and> (urlToNodeOriginal e h f = Some vfs
           \<longrightarrow> fst (move_vfs e h from parent) = Inl (ApiError HTTP_BAD_REQUEST ''from is root''))
        \<and> (\<forall>fromNode. urlToNodeOriginal e h f = Some fromNode \<and> fromNode \<noteq> vfs \<longrightarrow>
             (urlToNodeOriginal e h p = None
                \<longrightarrow> fst (move_vfs e h from parent)
                      = Inl (ApiError HTTP_NOT_FOUND ''parent not found''))
             \<and> (\<forall>parentNode. urlToNodeOriginal e h p = Some parentNode
                   \<and> has_child_named h parentNode (nodeName h fromNode)
                \<longrightarrow> fst (move_vfs e h from parent)
                      = Inl (ApiError HTTP_CONFLICT
                               ''item with same name already present in destination''))))"
  by (auto simp: move_vfs_def Let_def split: option.splits if_splits)

theorem move_vfs_failure_leaves_tree_witness:
  "fst (move_vfs example_env example_tree (Some ''/a'') (Some ''/''))
     = Inl (ApiError HTTP_CONFLICT ''item with same name already present in destination'')
   \<and> snd (move_vfs example_env example_tree (Some ''/a'') (Some ''/'')) = example_tree
   \<and> fst (move_vfs example_env example_tree (Some ''/'') (Some ''/b''))
     = Inl (ApiError HTTP_BAD_REQUEST ''from is root'')
   \<and> snd (move_vfs example_env example_tree (Some ''/'') (Some ''/b'')) = example_tree
   \<and> fst (move_vfs example_env example_tree (Some ''/zz'') (Some ''/b''))
     = Inl (ApiError HTTP_NOT_FOUND ''from not found'')
   \<and> snd (move_vfs example_env example_tree (Some ''/zz'') (Some ''/b'')) = example_tree
   \<and> fst (move_vfs example_env example_tree None (Some ''/b''))
     = Inl (ApiError HTTP_BAD_REQUEST [])
   \<and> snd (move_vfs example_env example_tree None (Some ''/b'')) = example_tree"
proof -
  have r1: "urlToNodeOriginal example_env example_tree ''/a'' = Some 1 \<and> 1 \<noteq> vfs
      \<and> urlToNodeOriginal example_env example_tree ''/'' = Some 0
      \<and> has_child_named example_tree 0 (nodeName example_tree 1)"
    by code_simp
  have r2: "urlToNodeOriginal example_env example_tree ''/'' = Some vfs" by code_simp
  have r3: "urlToNodeOriginal example_env example_tree ''/zz'' = None" by code_simp
  have n: "''/a'' \<noteq> [] \<and> ''/'' \<noteq> [] \<and> ''/b'' \<noteq> [] \<and> ''/zz'' \<noteq> []" by simp
  from r1 n move_vfs_failure_leaves_tree [of example_env example_tree "Some ''/a''" "Some ''/''"]
  have c1: "fst (move_vfs example_env example_tree (Some ''/a'') (Some ''/''))
     = Inl (ApiError HTTP_CONFLICT ''item with same name already present in destination'')"
    by blast
  from r2 n move_vfs_failure_leaves_tree [of example_env example_tree "Some ''/''" "Some ''/b''"]
  have c2: "fst (move_vfs example_env example_tree (Some ''/'') (Some ''/b''))
     = Inl (ApiError HTTP_BAD_REQUEST ''from is root'')"
    by blast
  from r3 n move_vfs_failure_leaves_tree [of example_env example_tree "Some ''/zz''" "Some ''/b''"]
  have c3: "fst (move_vfs example_env example_tree (Some ''/zz'') (Some ''/b''))
     = Inl (ApiError HTTP_NOT_FOUND ''from not found'')"
    by blast
  from move_vfs_failure_leaves_tree [of example_env example_tree None "Some ''/b''"]
  have c4: "fst (move_vfs example_env example_tree None (Some ''/b''))
     = Inl (ApiError HTTP_BAD_REQUEST [])"
    by blast
  from c1 move_vfs_failure_leaves_tree [of example_env example_tree "Some ''/a''" "Some ''/''"]
  have u1: "snd (move_vfs example_env example_tree (Some ''/a'') (Some ''/'')) = example_tree"
    by blast
  from c2 move_vfs_failure_leaves_tree [of example_env example_tree "Some ''/''" "Some ''/b''"]
  have u2: "snd (move_vfs example_env example_tree (Some ''/'') (Some ''/b'')) = example_tree"
    by blast
  from c3 move_vfs_failure_leaves_tree [of example_env example_tree "Some ''/zz''" "Some ''/b''"]
  have u3: "snd (move_vfs example_env example_tree (Some ''/zz'') (Some ''/b'')) = example_tree"
    by blast
  from c4 move_vfs_failure_leaves_tree [of example_env example_tree None "Some ''/b''"]
  have u4: "snd (move_vfs example_env example_tree None (Some ''/b'')) = example_tree"
    by blast
  from c1 c2 c3 c4 u1 u2 u3 u4 show ?thesis by blast
qed

text \<open>
  C2, as the code has it. After a successful \<^verbatim>\<open>move_vfs\<close> the moved node is gone from the
  children of its old parent (the node that \<^verbatim>\<open>dirname(from)\<close> resolves to), whose \<^verbatim>\<open>children\<close>
  property is deleted when nothing is left, and the moved node is the last element of the
  children of the destination: it is appended (\<^verbatim>\<open>push\<close>), not prepended. No other node and
  no property other than \<^verbatim>\<open>children\<close> changes. When \<^verbatim>\<open>from\<close> begins with a separator, the
  moved node was a child of the old parent, which is not the destination.
\<close>

theorem move_vfs_success_shape:
  assumes "wf_heap h" and "move_vfs e h from parent = (Inr u, h')"
  shows "\<exists>f p fromNode parentNode oldParent.
           from = Some f \<and> parent = Some p
           \<and> urlToNodeOriginal e h f = Some fromNode
           \<and> urlToNodeOriginal e h p = Some parentNode
           \<and> urlToNodeOriginal e h (dirname f) = Some oldParent
           \<and> (oldParent \<noteq> parentNode \<longrightarrow>
                children (deref h' oldParent) =
                  (if removeAll fromNode (kids h oldParent) = [] then None
                   else Some (removeAll fromNode (kids h oldParent))))
           \<and> children (deref h' parentNode) =
                 Some ((if oldParent = parentNode then removeAll fromNode (kids h parentNode)
                        else kids h parentNode) @ [fromNode])
           \<and> (hd f = slash \<longrightarrow>
                fromNode \<in> set (kids h oldParent) \<and> oldParent \<noteq> parentNode
                \<and> fromNode \<notin> set (kids h' oldParent))
           \<and> (\<forall>a. a \<noteq> oldParent \<and> a \<noteq> parentNode \<longrightarrow> deref h' a = deref h a)
           \<and> (\<forall>a. props (deref h' a) = props (deref h a))
           \<and> length h' = length h"
proof -
  from move_vfs_InrD [OF assms(2)] obtain f p fromNode parentNode oldParent where
    args: "from = Some f" "parent = Some p"
    and rf: "urlToNodeOriginal e h f = Some fromNode"
    and rp: "urlToNodeOriginal e h p = Some parentNode"
    and ro: "urlToNodeOriginal e h (dirname f) = Some oldParent"
    and h': "h' = push_child (detach h oldParent fromNode) parentNode fromNode"
    by blast
  from assms(1) rp have vp: "parentNode < length h" by (rule urlToNodeOriginal_valid)
  from assms(1) ro have vo: "oldParent < length h" by (rule urlToNodeOriginal_valid)
  have old: "oldParent \<noteq> parentNode \<longrightarrow>
        children (deref h' oldParent) =
          (if removeAll fromNode (kids h oldParent) = [] then None
           else Some (removeAll fromNode (kids h oldParent)))"
    using vo vp
    by (auto simp: h' kids_def deref_push_child deref_detach length_detach split: option.splits)
  have new: "children (deref h' parentNode) =
         Some ((if oldParent = parentNode then removeAll fromNode (kids h parentNode)
                else kids h parentNode) @ [fromNode])"
    using vo vp
    by (auto simp: h' kids_def deref_push_child deref_detach length_detach split: option.splits)
  have others: "\<forall>a. a \<noteq> oldParent \<and> a \<noteq> parentNode \<longrightarrow> deref h' a = deref h a"
    by (simp add: h' deref_push_child deref_detach)
  have same_props: "\<forall>a. props (deref h' a) = props (deref h a)"
    by (simp add: h' deref_push_child deref_detach)
  have len: "length h' = length h"
    by (simp add: h' length_push_child length_detach)
  have rooted: "hd f = slash \<longrightarrow>
        fromNode \<in> set (kids h oldParent) \<and> oldParent \<noteq> parentNode
        \<and> fromNode \<notin> set (kids h' oldParent)"
  proof
    assume r: "hd f = slash"
    from assms(2) args have ok: "move_vfs e h (Some f) parent = (Inr u, h')" by simp
    from args rp have rp': "parent = Some p \<and> urlToNodeOriginal e h p = Some parentNode" by simp
    from move_vfs_rooted_old_parent [OF assms(1) ok r rf rp' ro]
    have c: "fromNode \<in> set (kids h oldParent)" and d: "oldParent \<noteq> parentNode" by simp_all
    from d old have "kids h' oldParent = removeAll fromNode (kids h oldParent)"
      by (simp add: kids_def [of h'])
    with c d show "fromNode \<in> set (kids h oldParent) \<and> oldParent \<noteq> parentNode
        \<and> fromNode \<notin> set (kids h' oldParent)" by simp
  qed
  from args rf rp ro old new rooted others same_props len show ?thesis by blast
qed

theorem move_vfs_success_shape_witness:
  "wf_heap example_tree
   \<and> move_vfs example_env example_tree (Some ''/b/c'') (Some ''/'') =
       (Inr (),
        [\<lparr>props = [], children = Some [1, 2, 3]\<rparr>,
         \<lparr>props = [(''name'', Str ''a'')], children = None\<rparr>,
         \<lparr>props = [(''source'', Str ''/x/b'')], children = None\<rparr>,
         \<lparr>props = [(''name'', Str ''c'')], children = None\<rparr>])
   \<and> urlToNodeOriginal example_env example_tree ''/b/c'' = Some 3
   \<and> urlToNodeOriginal example_env example_tree (dirname ''/b/c'') = Some 2
   \<and> urlToNodeOriginal example_env example_tree ''/'' = Some 0
   \<and> 3 \<in> set (kids example_tree 2)
   \<and> children (deref [\<lparr>props = [], children = Some [1, 2, 3]\<rparr>,
         \<lparr>props = [(''name'', Str ''a'')], children = None\<rparr>,
         \<lparr>props = [(''source'', Str ''/x/b'')], children = None\<rparr>,
         \<lparr>props = [(''name'', Str ''c'')], children = None\<rparr>] 2) = None
   \<and> children (deref [\<lparr>props = [], children = Some [1, 2, 3]\<rparr>,
         \<lparr>props = [(''name'', Str ''a'')], children = None\<rparr>,
         \<lparr>props = [(''source'', Str ''/x/b'')], children = None\<rparr>,
         \<lparr>props = [(''name'', Str ''c'')], children = None\<rparr>] 0) = Some ([1, 2] @ [3])"
proof -
  let ?h' = "[\<lparr>props = [], children = Some [1, 2, 3]\<rparr>,
         \<lparr>props = [(''name'', Str ''a'')], children = None\<rparr>,
         \<lparr>props = [(''source'', Str ''/x/b'')], children = None\<rparr>,
         \<lparr>props = [(''name'', Str ''c'')], children = None\<rparr>]"
  have w: "wf_heap example_tree" by code_simp
  have m: "move_vfs example_env example_tree (Some ''/b/c'') (Some ''/'') = (Inr (), ?h')"
    by code_simp
  have r1: "urlToNodeOriginal example_env example_tree ''/b/c'' = Some 3" by code_simp
  have r2: "urlToNodeOriginal example_env example_tree (dirname ''/b/c'') = Some 2" by code_simp
  have r3: "urlToNodeOriginal example_env example_tree ''/'' = Some 0" by code_simp
  have k2: "kids example_tree 2 = [3]" by code_simp
  have k0: "kids example_tree 0 = [1, 2]" by code_simp
  have hd: "hd ''/b/c'' = slash" by code_simp
  from move_vfs_success_shape [OF w m] obtain f p fromNode parentNode oldParent where
    a: "Some ''/b/c'' = Some f" "Some ''/'' = Some p"
    and rf: "urlToNodeOriginal example_env example_tree f = Some fromNode"
    and rp: "urlToNodeOriginal example_env example_tree p = Some parentNode"
    and ro: "urlToNodeOriginal example_env example_tree (dirname f) = Some oldParent"
    and old: "oldParent \<noteq> parentNode \<longrightarrow>
                children (deref ?h' oldParent) =
                  (if removeAll fromNode (kids example_tree oldParent) = [] then None
                   else Some (removeAll fromNode (kids example_tree oldParent)))"
    and new: "children (deref ?h' parentNode) =
                 Some ((if oldParent = parentNode
                        then removeAll fromNode (kids example_tree parentNode)
                        else kids example_tree parentNode) @ [fromNode])"
    and rooted: "hd f = slash \<longrightarrow>
                fromNode \<in> set (kids example_tree oldParent) \<and> oldParent \<noteq> parentNode
                \<and> fromNode \<notin> set (kids ?h' oldParent)"
    by blast
  from a rf rp ro r1 r2 r3 have v: "fromNode = 3" "parentNode = 0" "oldParent = 2" by simp_all
  from rooted a hd have c1: "3 \<in> set (kids example_tree 2)" by (simp add: v)
  from old have c2: "children (deref ?h' 2) = None" by (simp add: v k2)
  from new have c3: "children (deref ?h' 0) = Some ([1, 2] @ [3])" by (simp add: v k0)
  from w m r1 r2 r3 c1 c2 c3 show ?thesis by blast
qed

text \<open>
  The claim as stated fails: moving \<^verbatim>\<open>/a\<close> (address 1) into \<^verbatim>\<open>/b\<close> (address 2), which already
  has the child at address 3, leaves the moved node last, not first.
\<close>

theorem move_vfs_not_prepended:
  "fst (move_vfs example_env example_tree (Some ''/a'') (Some ''/b'')) = Inr ()
   \<and> urlToNodeOriginal example_env example_tree ''/a'' = Some 1
   \<and> urlToNodeOriginal example_env example_tree ''/b'' = Some 2
   \<and> children (deref example_tree 2) = Some [3]
   \<and> children (deref (snd (move_vfs example_env example_tree (Some ''/a'') (Some ''/b''))) 2)
       = Some [3, 1]
   \<and> children (deref (snd (move_vfs example_env example_tree (Some ''/a'') (Some ''/b''))) 2)
       \<noteq> Some (1 # [3])"
  by code_simp

section \<open>Setting the properties of a node\<close>

lemma length_set_props: "length (set_props h a ps) = length h"
  by (simp add: set_props_def)

lemma deref_set_props:
  "deref (set_props h a ps) b =
     (if b = a \<and> a < length h then (deref h a)\<lparr>props := ps\<rparr> else deref h b)"
  by (auto simp: set_props_def deref_def)

lemma pickProps_foldl_map_of:
  "map_of (foldl (\<lambda>ret k. if obj_has k p
                            then AList.update k
                                   (if obj_get p k = Null \<or> obj_get p k = Str [] then Undefined
                                    else obj_get p k) ret
                            else ret) acc ks) k =
     (if k \<in> set ks \<and> obj_has k p
      then Some (if obj_get p k = Null \<or> obj_get p k = Str [] then Undefined else obj_get p k)
      else map_of acc k)"
  by (induction ks arbitrary: acc) (auto simp: AList.update_conv')

lemma pickProps_map_of:
  "map_of (pickProps (Some p) ks) k =
     (if k \<in> set ks \<and> obj_has k p
      then Some (if obj_get p k = Null \<or> obj_get p k = Str [] then Undefined else obj_get p k)
      else None)"
  by (simp add: pickProps_def pickProps_foldl_map_of)

lemma pickProps_foldl_distinct:
  "distinct (map fst acc) \<Longrightarrow>
   distinct (map fst (foldl (\<lambda>ret k. if obj_has k p
                            then AList.update k
                                   (if obj_get p k = Null \<or> obj_get p k = Str [] then Undefined
                                    else obj_get p k) ret
                            else ret) acc ks))"
  by (induction ks arbitrary: acc) (auto simp: AList.distinct_update)

lemma pickProps_distinct: "distinct (map fst (pickProps ob ks))"
  by (cases ob) (simp_all add: pickProps_def pickProps_foldl_distinct)

lemma object_assign_map_of:
  "distinct (map fst src) \<Longrightarrow>
   map_of (object_assign target src) k =
     (case map_of src k of None \<Rightarrow> map_of target k | Some v \<Rightarrow> Some v)"
proof (induction src arbitrary: target)
  case Nil
  then show ?case by (simp add: object_assign_def)
next
  case (Cons kv src)
  obtain a b where kv: "kv = (a, b)" by (cases kv)
  from Cons.prems kv have d: "distinct (map fst src)" and a: "a \<notin> fst ` set src" by auto
  have step: "object_assign target ((a, b) # src) = object_assign (AList.update a b target) src"
    by (simp add: object_assign_def)
  from a have none: "map_of src a = None" by (simp add: map_of_eq_None_iff)
  show ?case
    unfolding kv step
    using Cons.IH [OF d, of "AList.update a b target"] none
    by (auto simp: AList.update_conv' split: option.splits)
qed

lemma simplifyName_map_of_other:
  "k \<noteq> ''name'' \<Longrightarrow> map_of (simplifyName node) k = map_of node k"
  by (simp add: simplifyName_def Let_def)

lemma simplifyName_name_not_string:
  "obj_get node ''name'' = Undefined \<Longrightarrow> simplifyName node = node"
  by (simp add: simplifyName_def Let_def)

lemma set_vfs_InrD:
  assumes "set_vfs e h uri payload = (Inr r, h')"
  shows "\<exists>n. urlToNodeOriginal e h uri = Some n
            \<and> h' = set_props h n
                     (simplifyName
                        (object_assign (props (deref h n))
                           (if truthy (obj_get (pickProps payload (settable_keys e)) ''masks'')
                               \<and> \<not> typeof_object
                                      (obj_get (pickProps payload (settable_keys e)) ''masks'')
                            then AList.delete ''masks'' (pickProps payload (settable_keys e))
                            else pickProps payload (settable_keys e))))
            \<and> r = deref h' n"
  using assms by (auto simp: set_vfs_def Let_def split: option.splits if_splits)

text \<open>
  C10, as the code has it. After a successful \<^verbatim>\<open>set_vfs\<close>, a settable property that the
  payload gives as \<^verbatim>\<open>null\<close> or as the empty string is present on the node with the value
  \<^verbatim>\<open>undefined\<close>; a settable property other than \<^verbatim>\<open>name\<close> that the payload does not have is on
  the node what it was before (present with the same value, or missing). Nothing is said
  of a \<^verbatim>\<open>name\<close> that the payload does not have: \<^verbatim>\<open>simplifyName\<close> may delete it.
\<close>

theorem set_vfs_cleared_or_untouched:
  assumes wf: "wf_heap h"
    and res: "urlToNodeOriginal e h uri = Some n"
    and ok: "set_vfs e h uri (Some payload) = (Inr r, h')"
    and key: "k \<in> set (settable_keys e)"
  shows "(obj_has k payload \<and> (obj_get payload k = Null \<or> obj_get payload k = Str [])
            \<longrightarrow> map_of (props (deref h' n)) k = Some Undefined)
       \<and> (\<not> obj_has k payload \<and> k \<noteq> ''name''
            \<longrightarrow> map_of (props (deref h' n)) k = map_of (props (deref h n)) k)"
proof -
  define picked where "picked = pickProps (Some payload) (settable_keys e)"
  define sane where "sane = (if truthy (obj_get picked ''masks'')
                               \<and> \<not> typeof_object (obj_get picked ''masks'')
                            then AList.delete ''masks'' picked else picked)"
  define merged where "merged = object_assign (props (deref h n)) sane"
  from set_vfs_InrD [OF ok] res have h': "h' = set_props h n (simplifyName merged)"
    by (simp add: merged_def sane_def picked_def)
  from wf res have "n < length h" by (rule urlToNodeOriginal_valid)
  then have stored: "props (deref h' n) = simplifyName merged"
    by (simp add: h' deref_set_props)
  have dp: "distinct (map fst picked)"
    by (simp add: picked_def pickProps_distinct)
  then have ds: "distinct (map fst sane)"
    by (simp add: sane_def AList.distinct_delete)
  have merged_k: "map_of merged k =
      (case map_of sane k of None \<Rightarrow> map_of (props (deref h n)) k | Some v \<Rightarrow> Some v)"
    unfolding merged_def by (rule object_assign_map_of [OF ds])
  have cleared: "map_of (props (deref h' n)) k = Some Undefined"
    if has: "obj_has k payload" and nul: "obj_get payload k = Null \<or> obj_get payload k = Str []"
  proof -
    from has nul key have pk: "map_of picked k = Some Undefined"
      by (simp add: picked_def pickProps_map_of)
    have sk: "map_of sane k = Some Undefined"
    proof (cases "k = ''masks''")
      case True
      with pk have "obj_get picked ''masks'' = Undefined" by (simp add: obj_get_def)
      then have "sane = picked" by (simp add: sane_def)
      with pk show ?thesis by simp
    next
      case False
      with pk show ?thesis by (simp add: sane_def AList.delete_conv')
    qed
    with merged_k have mk: "map_of merged k = Some Undefined" by simp
    show ?thesis
    proof (cases "k = ''name''")
      case True
      with mk have "obj_get merged ''name'' = Undefined" by (simp add: obj_get_def)
      then have "simplifyName merged = merged" by (rule simplifyName_name_not_string)
      with mk stored show ?thesis by simp
    next
      case False
      with mk stored show ?thesis by (simp add: simplifyName_map_of_other)
    qed
  qed
  have untouched: "map_of (props (deref h' n)) k = map_of (props (deref h n)) k"
    if absent: "\<not> obj_has k payload" and nn: "k \<noteq> ''name''"
  proof -
    from absent have "map_of picked k = None"
      by (simp add: picked_def pickProps_map_of)
    then have "map_of sane k = None"
      by (simp add: sane_def AList.delete_conv')
    with merged_k have "map_of merged k = map_of (props (deref h n)) k" by simp
    with nn stored show ?thesis by (simp add: simplifyName_map_of_other)
  qed
  from cleared untouched show ?thesis by blast
qed

theorem set_vfs_cleared_or_untouched_witness:
  "wf_heap example_tree
   \<and> urlToNodeOriginal example_env example_tree ''/a'' = Some 1
   \<and> set_vfs example_env example_tree ''/a''
         (Some [(''can_read'', Null), (''source'', Str [])]) =
       (Inr \<lparr>props = [(''name'', Str ''a''), (''source'', Undefined), (''can_read'', Undefined)],
              children = None\<rparr>,
        [\<lparr>props = [], children = Some [1, 2]\<rparr>,
         \<lparr>props = [(''name'', Str ''a''), (''source'', Undefined), (''can_read'', Undefined)],
            children = None\<rparr>,
         \<lparr>props = [(''source'', Str ''/x/b'')], children = Some [3]\<rparr>,
         \<lparr>props = [(''name'', Str ''c'')], children = None\<rparr>])
   \<and> map_of [(''name'', Str ''a''), (''source'', Undefined), (''can_read'', Undefined)]
         ''can_read'' = Some Undefined
   \<and> map_of [(''name'', Str ''a''), (''source'', Undefined), (''can_read'', Undefined)]
         ''can_see'' = map_of (props (deref example_tree 1)) ''can_see''"
proof -
  let ?payload = "[(''can_read'', Null), (''source'', Str [])]"
  let ?node = "\<lparr>props = [(''name'', Str ''a''), (''source'', Undefined), (''can_read'', Undefined)],
                 children = None\<rparr>"
  let ?h' = "[\<lparr>props = [], children = Some [1, 2]\<rparr>, ?node,
              \<lparr>props = [(''source'', Str ''/x/b'')], children = Some [3]\<rparr>,
              \<lparr>props = [(''name'', Str ''c'')], children = None\<rparr>]"
  have w: "wf_heap example_tree" by code_simp
  have r: "urlToNodeOriginal example_env example_tree ''/a'' = Some 1" by code_simp
  have s: "set_vfs example_env example_tree ''/a'' (Some ?payload) = (Inr ?node, ?h')"
    by code_simp
  have k1: "''can_read'' \<in> set (settable_keys example_env)" by code_simp
  have k2: "''can_see'' \<in> set (settable_keys example_env)" by code_simp
  have p1: "obj_has ''can_read'' ?payload \<and> obj_get ?payload ''can_read'' = Null" by code_simp
  have p2: "\<not> obj_has ''can_see'' ?payload \<and> ''can_see'' \<noteq> ''name''" by code_simp
  have d: "props (deref ?h' 1) = props ?node" by code_simp
  from set_vfs_cleared_or_untouched [OF w r s k1] p1
  have c1: "map_of (props (deref ?h' 1)) ''can_read'' = Some Undefined" by blast
  from set_vfs_cleared_or_untouched [OF w r s k2] p2
  have c2: "map_of (props (deref ?h' 1)) ''can_see'' = map_of (props (deref example_tree 1)) ''can_see''"
    by blast
  from w r s c1 c2 show ?thesis unfolding d by simp
qed

text \<open>
  The claim as stated fails for \<^verbatim>\<open>name\<close>: the node \<^verbatim>\<open>/a\<close> has the explicit name \<^verbatim>\<open>a\<close> and no
  source; a payload that sets only \<^verbatim>\<open>source\<close> to \<^verbatim>\<open>/q/a\<close> makes \<^verbatim>\<open>simplifyName\<close> delete the
  name, though the payload does not have the property \<^verbatim>\<open>name\<close>.
\<close>

theorem set_vfs_absent_name_dropped:
  "\<not> obj_has ''name'' [(''source'', Str ''/q/a'')]
   \<and> ''name'' \<in> set (settable_keys example_env)
   \<and> urlToNodeOriginal example_env example_tree ''/a'' = Some 1
   \<and> map_of (props (deref example_tree 1)) ''name'' = Some (Str ''a'')
   \<and> fst (set_vfs example_env example_tree ''/a'' (Some [(''source'', Str ''/q/a'')]))
       = Inr \<lparr>props = [(''source'', Str ''/q/a'')], children = None\<rparr>
   \<and> map_of (props (deref (snd (set_vfs example_env example_tree ''/a''
                                      (Some [(''source'', Str ''/q/a'')]))) 1)) ''name''
       = None"
  by code_simp

section \<open>The masks reported by \<^verbatim>\<open>get_vfs\<close>\<close>

text \<open>
  C3, as the code has it. For a node with an original and an inherited snapshot, a field
  is reported in \<^verbatim>\<open>byMasks\<close> exactly when it is a field of the node whose value differs from
  the value of the original, whose key is not a key of the inherited snapshot, and whose
  key is one of the permission keys. In particular a field that the inherited snapshot
  has (with the same value or another) is never reported.
\<close>

theorem byMasks_classification:
  "((k, v) \<in> set (case get_vfs_byMasks e node (Some orig) (Some inh) of
                     None \<Rightarrow> [] | Some picked \<Rightarrow> picked))
     = ((k, v) \<in> set node \<and> v \<noteq> obj_get orig k \<and> \<not> obj_has k inh \<and> k \<in> set (PERM_KEYS e))
   \<and> (obj_has k inh \<longrightarrow>
        (k, v) \<notin> set (case get_vfs_byMasks e node (Some orig) (Some inh) of
                         None \<Rightarrow> [] | Some picked \<Rightarrow> picked))"
  by (auto simp: get_vfs_byMasks_def byMasks_def pickBy_def filter_empty_conv)

theorem byMasks_classification_witness:
  "get_vfs_byMasks example_env masked_node (Some masked_original) (Some masked_inherited)
     = Some [(''can_see'', Bool False)]
   \<and> obj_has ''can_read'' masked_inherited
   \<and> (''can_read'', Bool True) \<notin> set [(''can_see'', Bool False)]
   \<and> (''can_see'', Bool False) \<in> set masked_node
   \<and> Bool False \<noteq> obj_get masked_original ''can_see''
   \<and> \<not> obj_has ''can_see'' masked_inherited
   \<and> ''can_see'' \<in> set (PERM_KEYS example_env)"
proof -
  have r: "get_vfs_byMasks example_env masked_node (Some masked_original) (Some masked_inherited)
     = Some [(''can_see'', Bool False)]"
    by code_simp
  have i: "obj_has ''can_read'' masked_inherited" by code_simp
  have m: "(''can_see'', Bool False) \<in> set [(''can_see'', Bool False)]" by simp
  from i byMasks_classification [of "''can_read''" "Bool True" example_env masked_node
      masked_original masked_inherited]
  have a: "(''can_read'', Bool True) \<notin> set [(''can_see'', Bool False)]"
    unfolding r by simp
  from m byMasks_classification [of "''can_see''" "Bool False" example_env masked_node
      masked_original masked_inherited]
  have b: "(''can_see'', Bool False) \<in> set masked_node
     \<and> Bool False \<noteq> obj_get masked_original ''can_see''
     \<and> \<not> obj_has ''can_see'' masked_inherited
     \<and> ''can_see'' \<in> set (PERM_KEYS example_env)"
    unfolding r by simp
  from r i a b show ?thesis by blast
qed

text \<open>
  The last clause of the claim as stated fails: a node whose \<^verbatim>\<open>can_read\<close> is \<^verbatim>\<open>false\<close>, where
  the inherited snapshot has \<^verbatim>\<open>can_read: true\<close> and the original has no \<^verbatim>\<open>can_read\<close>, differs
  from both the inherited and the original value, and nothing is reported, since the key
  is a key of the inherited snapshot.
\<close>

theorem byMasks_inherited_key_not_reported:
  "obj_get [(''source'', Str ''/x''), (''can_read'', Bool False)] ''can_read'' = Bool False
   \<and> obj_get masked_inherited ''can_read'' = Bool True
   \<and> obj_get [(''source'', Str ''/x'')] ''can_read'' = Undefined
   \<and> ''can_read'' \<in> set (PERM_KEYS example_env)
   \<and> get_vfs_byMasks example_env [(''source'', Str ''/x''), (''can_read'', Bool False)]
         (Some [(''source'', Str ''/x'')]) (Some masked_inherited) = None"
  by code_simp

section \<open>The filter of \<^verbatim>\<open>get_ls\<close>\<close>

lemma ls_loop_directories:
  "directories (fst (ls_loop L files fileMask matching i es))
     = directories (fst (ls_loop L files' fileMask' matching' i es))"
  by (induction es arbitrary: i) (auto simp: directories_def case_prod_beta split: option.splits)

lemma ls_loop_no_files:
  "plain_files (fst (ls_loop L False fileMask matching i es)) = []"
  by (induction es arbitrary: i) (auto simp: plain_files_def case_prod_beta split: option.splits)

lemma ls_loop_all_directories:
  "\<forall>j. \<not> aborted L j \<Longrightarrow>
   map entry_n (directories (fst (ls_loop L files fileMask matching i es)))
     = map fst (filter (\<lambda>(name, isDir). isDir \<and> stat L name \<noteq> None) es)"
  by (induction es arbitrary: i) (auto simp: directories_def case_prod_beta split: option.splits)

lemma plain_files_drives:
  "plain_files (map (\<lambda>d. \<lparr>entry_n = d, entry_s = None, entry_c = None, entry_m = None,
                           entry_k = Some ''d''\<rparr>) drives) = []"
  by (simp add: plain_files_def)

lemma plain_files_Nil: "plain_files [] = []"
  by (simp add: plain_files_def)

lemma directories_Nil: "directories [] = []"
  by (simp add: directories_def)

lemma fst_get_ls:
  "fst (get_ls e L path files fileMask) =
     (if (path = None \<or> path = Some []) \<and> IS_WINDOWS L
      then (case getDrives L of
              None \<Rightarrow> []
            | Some drives \<Rightarrow>
                map (\<lambda>d. \<lparr>entry_n = d, entry_s = None, entry_c = None, entry_m = None,
                          entry_k = Some ''d''\<rparr>) drives)
      else
        (case dirStream L (listed_path e L path) of
           Inl code \<Rightarrow> []
         | Inr entries \<Rightarrow>
             fst (ls_loop L (case files of None \<Rightarrow> True | Some f \<Rightarrow> f) fileMask
                    (makeMatcher L fileMask) 0 entries)))"
  by (simp add: get_ls_def Let_def case_prod_beta split: option.splits sum.splits)

text \<open>
  C8. The directories that \<^verbatim>\<open>get_ls\<close> lists do not depend on \<^verbatim>\<open>files\<close> nor on the mask: they
  are the same for any two settings. With \<^verbatim>\<open>files = false\<close> no file is listed, whatever the
  mask. When a directory is read and the request is never aborted, the directories listed
  are all the directories of the stream whose metadata can be read, in the order of the
  stream.
\<close>

theorem get_ls_mask_spares_directories:
  "directories (fst (get_ls e L path files fileMask))
     = directories (fst (get_ls e L path files' fileMask'))
   \<and> plain_files (fst (get_ls e L path (Some False) fileMask)) = []
   \<and> (\<not> ((path = None \<or> path = Some []) \<and> IS_WINDOWS L) \<and> (\<forall>j. \<not> aborted L j) \<longrightarrow>
        map entry_n (directories (fst (get_ls e L path files fileMask)))
          = (case dirStream L (listed_path e L path) of
               Inl code \<Rightarrow> []
             | Inr entries \<Rightarrow>
                 map fst (filter (\<lambda>(name, isDir). isDir \<and> stat L name \<noteq> None) entries)))"
proof -
  have a: "directories (fst (get_ls e L path files fileMask))
     = directories (fst (get_ls e L path files' fileMask'))"
    unfolding fst_get_ls
    by (auto simp: ls_loop_directories [of L _ fileMask _ 0 _ _ fileMask'] split: option.splits sum.splits)
  have b: "plain_files (fst (get_ls e L path (Some False) fileMask)) = []"
    unfolding fst_get_ls
    by (auto simp: ls_loop_no_files plain_files_drives plain_files_Nil split: option.splits sum.splits)
  have c: "map entry_n (directories (fst (get_ls e L path files fileMask)))
          = (case dirStream L (listed_path e L path) of
               Inl code \<Rightarrow> []
             | Inr entries \<Rightarrow>
                 map fst (filter (\<lambda>(name, isDir). isDir \<and> stat L name \<noteq> None) entries))"
    if "\<not> ((path = None \<or> path = Some []) \<and> IS_WINDOWS L)" and "\<forall>j. \<not> aborted L j"
    unfolding fst_get_ls using that
    by (auto simp: ls_loop_all_directories directories_Nil split: option.splits sum.splits)
  from a b c show ?thesis by blast
qed

theorem get_ls_mask_spares_directories_witness:
  "\<not> ((Some ''/srv'' = (None :: string option) \<or> Some ''/srv'' = Some []) \<and> IS_WINDOWS example_lister)
   \<and> fst (get_ls example_env example_lister (Some ''/srv'') None None)
       = [\<lparr>entry_n = ''docs'', entry_s = Some 1, entry_c = Some 2, entry_m = Some 3,
           entry_k = Some ''d''\<rparr>,
          \<lparr>entry_n = ''a.txt'', entry_s = Some 1, entry_c = Some 2, entry_m = Some 3,
           entry_k = None\<rparr>,
          \<lparr>entry_n = ''pics'', entry_s = Some 1, entry_c = Some 2, entry_m = Some 3,
           entry_k = Some ''d''\<rparr>,
          \<lparr>entry_n = ''b.jpg'', entry_s = Some 1, entry_c = Some 2, entry_m = Some 3,
           entry_k = None\<rparr>]
   \<and> map entry_n (directories (fst (get_ls example_env example_lister (Some ''/srv'') None
                                       (Some ''*.png''))))
       = [''docs'', ''pics'']
   \<and> plain_files (fst (get_ls example_env example_lister (Some ''/srv'') None (Some ''*.png'')))
       = []"
proof -
  have w: "\<not> ((Some ''/srv'' = (None :: string option) \<or> Some ''/srv'' = Some [])
               \<and> IS_WINDOWS example_lister)"
    by simp
  have n: "\<forall>j. \<not> aborted example_lister j"
    by (simp add: example_lister_def)
  have s: "(case dirStream example_lister (listed_path example_env example_lister (Some ''/srv'')) of
              Inl code \<Rightarrow> []
            | Inr entries \<Rightarrow>
                map fst (filter (\<lambda>(name, isDir). isDir \<and> stat example_lister name \<noteq> None) entries))
           = [''docs'', ''pics'']"
    by (simp add: example_lister_def)
  have a: "fst (get_ls example_env example_lister (Some ''/srv'') None None)
       = [\<lparr>entry_n = ''docs'', entry_s = Some 1, entry_c = Some 2, entry_m = Some 3,
           entry_k = Some ''d''\<rparr>,
          \<lparr>entry_n = ''a.txt'', entry_s = Some 1, entry_c = Some 2, entry_m = Some 3,
           entry_k = None\<rparr>,
          \<lparr>entry_n = ''pics'', entry_s = Some 1, entry_c = Some 2, entry_m = Some 3,
           entry_k = Some ''d''\<rparr>,
          \<lparr>entry_n = ''b.jpg'', entry_s = Some 1, entry_c = Some 2, entry_m = Some 3,
           entry_k = None\<rparr>]"
    by code_simp
  have p: "plain_files (fst (get_ls example_env example_lister (Some ''/srv'') None (Some ''*.png'')))
       = []"
    by code_simp
  from w n get_ls_mask_spares_directories [of example_env example_lister "Some ''/srv''" None
      "Some ''*.png''"]
  have d: "map entry_n (directories (fst (get_ls example_env example_lister (Some ''/srv'') None
                                       (Some ''*.png''))))
       = [''docs'', ''pics'']"
    unfolding s by blast
  from w a d p show ?thesis by blast
qed

section \<open>Deleting nodes\<close>

lemma indexOf_notin: "x \<notin> set xs \<Longrightarrow> indexOf xs x = - 1"
  by (induction xs) (auto simp: Let_def)

lemma indexOf_in: "x \<in> set xs \<Longrightarrow> 0 \<le> indexOf xs x \<and> nat (indexOf xs x) < length xs \<and> xs ! nat (indexOf xs x) = x"
  by (induction xs) (auto simp: Let_def nat_add_distrib)

lemma splice1_last: "cs \<noteq> [] \<Longrightarrow> splice1 cs (- 1) = butlast cs"
  by (cases cs rule: rev_cases) (auto simp: splice1_def Let_def butlast_conv_take)

lemma task_for_step: "task_for u t \<Longrightarrow> task_for u (snd (del_step e h t))"
  by (cases t) (auto simp: task_for_def split: jsval.splits option.splits)

lemma length_step_at: "length (snd (step_at e i st)) = length (snd st)"
  by (cases st) (auto simp: step_at_def split: prod.splits)

lemma length_del_run: "length (snd (del_run e sched st)) = length (snd st)"
  unfolding del_run_def
  by (induction sched arbitrary: st) (simp_all add: length_step_at)

lemma task_for_step_at:
  "list_all2 task_for us (snd st) \<Longrightarrow> list_all2 task_for us (snd (step_at e i st))"
proof (cases st)
  case (Pair h ts)
  assume a: "list_all2 task_for us (snd st)"
  show ?thesis
  proof (cases "i < length ts")
    case True
    obtain h' t' where s: "del_step e h (ts ! i) = (h', t')" by (cases "del_step e h (ts ! i)")
    from a Pair True have "task_for (us ! i) (ts ! i)" by (simp add: list_all2_conv_all_nth)
    then have "task_for (us ! i) t'" using task_for_step [of "us ! i" "ts ! i" e h] s by simp
    with a Pair True s show ?thesis
      by (auto simp: step_at_def list_all2_conv_all_nth nth_list_update)
  next
    case False
    with a Pair show ?thesis by (simp add: step_at_def)
  qed
qed

lemma task_for_del_run:
  "list_all2 task_for us (snd st) \<Longrightarrow> list_all2 task_for us (snd (del_run e sched st))"
  unfolding del_run_def
  by (induction sched arbitrary: st) (simp_all add: task_for_step_at)

text \<open>Three steps finish any task, and a finished task stays as it is.\<close>

lemma three_steps_finish:
  "\<exists>h3 code. del_step e (fst (del_step e (fst (del_step e h t)) (snd (del_step e h t))))
                 (snd (del_step e (fst (del_step e h t)) (snd (del_step e h t)))) = (h3, Finished code)"
  by (cases t) (auto split: jsval.splits option.splits)

lemma step_at_other:
  "j \<noteq> i \<Longrightarrow> snd (step_at e i st) ! j = snd st ! j"
  by (cases st) (auto simp: step_at_def split: prod.splits)

lemma step_at_same:
  "i < length (snd st) \<Longrightarrow>
   step_at e i st = (fst (del_step e (fst st) (snd st ! i)),
                     (snd st)[i := snd (del_step e (fst st) (snd st ! i))])"
  by (cases st) (auto simp: step_at_def split: prod.splits)

lemma step_at_thrice:
  assumes "i < length (snd st)"
  shows "\<exists>code. snd (step_at e i (step_at e i (step_at e i st))) ! i = Finished code"
proof -
  obtain h ts where st: "st = (h, ts)" by (cases st)
  from assms st have i: "i < length ts" by simp
  define h1 where "h1 = fst (del_step e h (ts ! i))"
  define t1 where "t1 = snd (del_step e h (ts ! i))"
  define h2 where "h2 = fst (del_step e h1 t1)"
  define t2 where "t2 = snd (del_step e h1 t1)"
  have s1: "step_at e i st = (h1, ts[i := t1])"
    using i by (simp add: st step_at_same h1_def t1_def)
  have s2: "step_at e i (h1, ts[i := t1]) = (h2, ts[i := t2])"
    using i by (simp add: step_at_same h2_def t2_def)
  have s3: "step_at e i (h2, ts[i := t2]) = (fst (del_step e h2 t2), ts[i := snd (del_step e h2 t2)])"
    using i by (simp add: step_at_same)
  from three_steps_finish [of e h "ts ! i"] obtain h3 code where
    "del_step e h2 t2 = (h3, Finished code)"
    by (auto simp: h1_def t1_def h2_def t2_def)
  with s1 s2 s3 i show ?thesis by simp
qed

lemma finished_step: "is_finished t \<Longrightarrow> snd (del_step e h t) = t"
  by (cases t) (auto simp: is_finished_def task_code_def)

lemma finished_step_at:
  "j < length (snd st) \<Longrightarrow> is_finished (snd st ! j) \<Longrightarrow> snd (step_at e i st) ! j = snd st ! j"
  by (cases "i = j") (auto simp: step_at_same finished_step step_at_other)

lemma run_out_Suc: "run_out (Suc m) = run_out m @ [m, m, m]"
  by (simp add: run_out_def)

lemma del_run_append: "del_run e (xs @ ys) st = del_run e ys (del_run e xs st)"
  by (simp add: del_run_def)

lemma del_run_thrice: "del_run e [m, m, m] st = step_at e m (step_at e m (step_at e m st))"
  by (simp add: del_run_def)

lemma run_out_finishes:
  "m \<le> length (snd st) \<Longrightarrow> j < m \<Longrightarrow> is_finished (snd (del_run e (run_out m) st) ! j)"
proof (induction m arbitrary: j)
  case 0
  then show ?case by simp
next
  case (Suc m)
  let ?st = "del_run e (run_out m) st"
  have len: "length (snd ?st) = length (snd st)" by (rule length_del_run)
  have run: "del_run e (run_out (Suc m)) st = step_at e m (step_at e m (step_at e m ?st))"
    by (simp add: run_out_Suc del_run_append del_run_thrice)
  show ?case
  proof (cases "j = m")
    case True
    from Suc.prems len have "m < length (snd ?st)" by simp
    from step_at_thrice [OF this, of e] show ?thesis
      by (auto simp: run True is_finished_def task_code_def)
  next
    case False
    with Suc.prems have j: "j < m" by simp
    with Suc.IH Suc.prems have f: "is_finished (snd ?st ! j)" by simp
    from False have "snd (step_at e m (step_at e m (step_at e m ?st))) ! j = snd ?st ! j"
      by (simp add: step_at_other)
    with f show ?thesis by (simp add: run)
  qed
qed

lemma map_filter_all_finished:
  "\<forall>j<length ts. is_finished (ts ! j) \<Longrightarrow>
   length (List.map_filter task_code ts) = length ts
   \<and> (\<forall>j<length ts. ts ! j = Finished (List.map_filter task_code ts ! j))"
proof (induction ts)
  case Nil
  then show ?case by (simp add: List.map_filter_simps)
next
  case (Cons t ts)
  from Cons.prems have t: "is_finished t" by auto
  then obtain code where c: "t = Finished code"
    by (cases t) (auto simp: is_finished_def task_code_def)
  from Cons.prems have "\<forall>j<length ts. is_finished (ts ! j)" by auto
  with Cons.IH have ih: "length (List.map_filter task_code ts) = length ts"
    "\<forall>j<length ts. ts ! j = Finished (List.map_filter task_code ts ! j)" by auto
  have m: "List.map_filter task_code (t # ts) = code # List.map_filter task_code ts"
    by (simp add: c List.map_filter_simps task_code_def)
  show ?case
    unfolding m using ih c by (auto simp: nth_Cons split: nat.splits)
qed


lemma run_task_absorb: "run_task e (del_step e h t) = run_task e (h, t)"
  by (cases t) (auto simp: run_task_def split: jsval.splits option.splits prod.splits)

lemma del_run_single:
  "del_run e (sched @ [0, 0, 0]) (h, [t]) = (case run_task e (h, t) of (h', t') \<Rightarrow> (h', [t']))"
proof (induction sched arbitrary: h t)
  case Nil
  show ?case
    by (simp add: del_run_def step_at_def run_task_def split: prod.splits)
next
  case (Cons i sched)
  show ?case
  proof (cases "i = 0")
    case True
    obtain h1 t1 where s: "del_step e h t = (h1, t1)" by (cases "del_step e h t")
    then have "step_at e i (h, [t]) = (h1, [t1])" by (simp add: True step_at_def)
    then have "del_run e ((i # sched) @ [0, 0, 0]) (h, [t]) = del_run e (sched @ [0, 0, 0]) (h1, [t1])"
      by (simp add: del_run_def)
    also have "\<dots> = (case run_task e (h1, t1) of (h', t') \<Rightarrow> (h', [t']))" by (rule Cons.IH)
    also have "run_task e (h1, t1) = run_task e (h, t)"
      using run_task_absorb [of e h t] s by simp
    finally show ?thesis .
  next
    case False
    then have "step_at e i (h, [t]) = (h, [t])" by (simp add: step_at_def)
    then have "del_run e ((i # sched) @ [0, 0, 0]) (h, [t]) = del_run e (sched @ [0, 0, 0]) (h, [t])"
      by (simp add: del_run_def)
    with Cons.IH show ?thesis by simp
  qed
qed

lemma del_vfs_single:
  "del_vfs e sched h (Some [u]) =
     (case del_one e h u of (h', t) \<Rightarrow> (Inr (List.map_filter task_code [t]), h'))"
  using del_run_single [of e sched h "Start u"]
  by (simp add: del_vfs_def del_one_def run_out_def split: prod.splits)

lemma del_one_table:
  "del_one e h u =
     (case u of
        Str uri \<Rightarrow>
          if uri = ''/'' then (h, Finished HTTP_NOT_ACCEPTABLE)
          else (case urlToNodeOriginal e h uri of
                  None \<Rightarrow> (h, Finished HTTP_NOT_FOUND)
                | Some node \<Rightarrow>
                    (case urlToNodeOriginal e h (dirname uri) of
                       None \<Rightarrow> (h, Finished HTTP_SERVER_ERROR)
                     | Some p \<Rightarrow>
                         (case children (deref h p) of
                            None \<Rightarrow> (h, Finished HTTP_SERVER_ERROR)
                          | Some cs \<Rightarrow>
                              (set_children h p (Some (splice1 cs (indexOf cs node))),
                               Finished 0))))
      | _ \<Rightarrow> (h, Finished HTTP_BAD_REQUEST))"
  by (auto simp: del_one_def run_task_def split: jsval.splits option.splits)

lemma del_step_failure_keeps_store:
  "del_step e h t = (h1, t1) \<Longrightarrow> t1 \<noteq> Finished 0 \<Longrightarrow> h1 = h"
  by (cases t) (auto split: jsval.splits option.splits if_splits)

lemma del_vfs_codes:
  "\<exists>errs h'. del_vfs e sched h (Some uris) = (Inr errs, h') \<and> length errs = length uris
       \<and> (\<forall>i<length uris. task_for (uris ! i) (Finished (errs ! i)))"
proof -
  let ?st0 = "(h, map Start uris)"
  let ?st1 = "del_run e sched ?st0"
  let ?st2 = "del_run e (run_out (length uris)) ?st1"
  have run: "del_run e (sched @ run_out (length uris)) ?st0 = ?st2"
    by (rule del_run_append)
  have len1: "length (snd ?st1) = length uris" by (simp add: length_del_run)
  have len2: "length (snd ?st2) = length uris" by (simp add: length_del_run)
  have "list_all2 task_for uris (snd ?st0)"
    by (simp add: list_all2_conv_all_nth task_for_def)
  then have "list_all2 task_for uris (snd ?st1)" by (rule task_for_del_run)
  then have inv: "list_all2 task_for uris (snd ?st2)" by (rule task_for_del_run)
  have fin: "\<forall>j<length (snd ?st2). is_finished (snd ?st2 ! j)"
    using run_out_finishes [of "length uris" ?st1 _ e] len1 len2 by simp
  from map_filter_all_finished [OF fin]
  have l: "length (List.map_filter task_code (snd ?st2)) = length uris"
    and f: "\<forall>j<length uris. snd ?st2 ! j = Finished (List.map_filter task_code (snd ?st2) ! j)"
    using len2 by auto
  from inv f have "\<forall>i<length uris. task_for (uris ! i) (Finished (List.map_filter task_code (snd ?st2) ! i))"
    by (auto simp: list_all2_conv_all_nth)
  with l show ?thesis
    by (auto simp: del_vfs_def run split: prod.splits)
qed

lemma splice1_inside:
  assumes "0 \<le> i" and "nat i < length cs"
  shows "splice1 cs i = take (nat i) cs @ drop (Suc (nat i)) cs"
proof -
  from assms have "i \<le> int (length cs)" by linarith
  with assms show ?thesis by (simp add: splice1_def Let_def min_def)
qed

lemma splice1_indexOf:
  "x \<in> set cs \<Longrightarrow> splice1 cs (indexOf cs x) = remove1 x cs"
proof (induction cs)
  case Nil
  then show ?case by simp
next
  case (Cons c cs)
  show ?case
  proof (cases "c = x")
    case True
    then show ?thesis by (simp add: splice1_def)
  next
    case False
    with Cons.prems have x: "x \<in> set cs" by simp
    from indexOf_in [OF x] have i: "0 \<le> indexOf cs x" "nat (indexOf cs x) < length cs" by simp_all
    from Cons.IH [OF x] i have ih: "take (nat (indexOf cs x)) cs @ drop (Suc (nat (indexOf cs x))) cs
        = remove1 x cs"
      by (simp add: splice1_inside)
    from False i have idx: "indexOf (c # cs) x = indexOf cs x + 1" by (simp add: Let_def)
    from i have "0 \<le> indexOf cs x + 1" and "nat (indexOf cs x + 1) < length (c # cs)"
      and n: "nat (indexOf cs x + 1) = Suc (nat (indexOf cs x))"
      by (simp_all add: nat_add_distrib)
    then have "splice1 (c # cs) (indexOf cs x + 1)
        = take (Suc (nat (indexOf cs x))) (c # cs) @ drop (Suc (Suc (nat (indexOf cs x)))) (c # cs)"
      by (simp add: splice1_inside)
    with ih False idx show ?thesis by simp
  qed
qed

text \<open>
  The regular case of a deletion: a URI that begins with a separator and resolves to a
  node other than the root yields 0, and the node (its first occurrence) is taken out
  of the children of its parent.
\<close>

lemma del_vfs_rooted_success:
  assumes "hd uri = slash" and "segments uri \<noteq> []"
    and "urlToNodeOriginal e h uri = Some node"
  shows "\<exists>p. urlToNodeOriginal e h (dirname uri) = Some p \<and> node \<in> set (kids h p)
           \<and> del_vfs e sched h (Some [Str uri])
               = (Inr [0], set_children h p (Some (remove1 node (kids h p))))"
proof -
  from assms(2) have ne: "uri \<noteq> []" by (auto simp: segments_def)
  from assms(2) have nr: "uri \<noteq> ''/''" by (auto simp: segments_def slash_def)
  from resolved_parent [OF ne assms(1,2,3)] obtain p where
    p: "urlToNodeOriginal e h (dirname uri) = Some p" and c: "node \<in> set (kids h p)" by blast
  from c obtain cs where cs: "children (deref h p) = Some cs" and k: "kids h p = cs"
    by (cases "children (deref h p)") (auto simp: kids_def)
  from c k have "splice1 cs (indexOf cs node) = remove1 node cs"
    by (simp add: splice1_indexOf)
  with nr assms(3) p cs have "del_one e h (Str uri)
      = (set_children h p (Some (remove1 node cs)), Finished 0)"
    by (simp add: del_one_table)
  then have "del_vfs e sched h (Some [Str uri])
      = (Inr [0], set_children h p (Some (remove1 node cs)))"
    by (simp add: del_vfs_single List.map_filter_simps task_code_def)
  with p c k show ?thesis by blast
qed

text \<open>
  Leaving out an entry: the run of the other callbacks is the same when the callback that
  is left out never changes the tree, which is so when it does not end with 0.
\<close>

lemma length_without_entry: "j < length xs \<Longrightarrow> length (without_entry j xs) = length xs - 1"
  by (simp add: without_entry_def)

lemma without_entry_map: "without_entry j (map f xs) = map f (without_entry j xs)"
  by (simp add: without_entry_def take_map drop_map)

lemma without_entry_update: "without_entry j (xs[j := x]) = without_entry j xs"
  by (simp add: without_entry_def)

lemma without_entry_nth:
  "i \<noteq> j \<Longrightarrow> j < length xs \<Longrightarrow> i < length xs \<Longrightarrow>
   without_entry j xs ! (if j < i then i - 1 else i) = xs ! i"
  by (auto simp: without_entry_def nth_append min_def)

lemma without_entry_update_other:
  "i \<noteq> j \<Longrightarrow> j < length xs \<Longrightarrow> i < length xs \<Longrightarrow>
   (without_entry j xs)[(if j < i then i - 1 else i) := x] = without_entry j (xs[i := x])"
  by (auto simp: without_entry_def list_update_append min_def drop_update_swap take_update_swap
      list_update_beyond)

lemma finished_del_run:
  "j < length (snd st) \<Longrightarrow> is_finished (snd st ! j) \<Longrightarrow> snd (del_run e s st) ! j = snd st ! j"
proof (induction s arbitrary: st)
  case Nil
  then show ?case by (simp add: del_run_def)
next
  case (Cons i s)
  from Cons.prems have a: "snd (step_at e i st) ! j = snd st ! j" by (rule finished_step_at)
  from Cons.prems have l: "j < length (snd (step_at e i st))" by (simp add: length_step_at)
  from Cons.IH [OF l] a Cons.prems(2)
  have "snd (del_run e s (step_at e i st)) ! j = snd st ! j" by simp
  then show ?case by (simp add: del_run_def)
qed

lemma step_at_without_other:
  assumes "i \<noteq> j" and "j < length ts"
  shows "step_at e (if j < i then i - 1 else i) (h, without_entry j ts)
           = (fst (step_at e i (h, ts)), without_entry j (snd (step_at e i (h, ts))))"
proof (cases "i < length ts")
  case True
  with assms have l: "(if j < i then i - 1 else i) < length (without_entry j ts)"
    by (auto simp: length_without_entry)
  from assms True have n: "without_entry j ts ! (if j < i then i - 1 else i) = ts ! i"
    by (rule without_entry_nth)
  from assms True have u: "\<And>x. (without_entry j ts)[(if j < i then i - 1 else i) := x]
      = without_entry j (ts[i := x])"
    by (rule without_entry_update_other)
  from True have "step_at e i (h, ts) = (fst (del_step e h (ts ! i)), ts[i := snd (del_step e h (ts ! i))])"
    by (simp add: step_at_same)
  moreover from l have "step_at e (if j < i then i - 1 else i) (h, without_entry j ts)
      = (fst (del_step e h (without_entry j ts ! (if j < i then i - 1 else i))),
         (without_entry j ts)[(if j < i then i - 1 else i)
             := snd (del_step e h (without_entry j ts ! (if j < i then i - 1 else i)))])"
    by (simp add: step_at_same)
  ultimately show ?thesis by (simp only: n u fst_conv snd_conv)
next
  case False
  with assms have "\<not> (if j < i then i - 1 else i) < length (without_entry j ts)"
    by (auto simp: length_without_entry)
  with False show ?thesis by (simp add: step_at_def)
qed

lemma del_run_without:
  assumes "j < length ts" and "snd (del_run e s (h, ts)) ! j \<noteq> Finished 0"
  shows "del_run e (without_turns j s) (h, without_entry j ts)
           = (fst (del_run e s (h, ts)), without_entry j (snd (del_run e s (h, ts))))"
  using assms
proof (induction s arbitrary: h ts)
  case Nil
  then show ?case by (simp add: del_run_def without_turns_def)
next
  case (Cons i s)
  obtain h1 ts1 where st: "step_at e i (h, ts) = (h1, ts1)" by (cases "step_at e i (h, ts)")
  from length_step_at [of e i "(h, ts)"] st Cons.prems(1) have l1: "j < length ts1" by simp
  from Cons.prems(2) st have f1: "snd (del_run e s (h1, ts1)) ! j \<noteq> Finished 0"
    by (simp add: del_run_def)
  from Cons.IH [OF l1 f1]
  have ih: "del_run e (without_turns j s) (h1, without_entry j ts1)
              = (fst (del_run e s (h1, ts1)), without_entry j (snd (del_run e s (h1, ts1))))" .
  have whole: "del_run e (i # s) (h, ts) = del_run e s (h1, ts1)"
    by (simp add: del_run_def st)
  show ?case
  proof (cases "i = j")
    case True
    obtain h' t' where d: "del_step e h (ts ! j) = (h', t')" by (cases "del_step e h (ts ! j)")
    with Cons.prems(1) st True have h1: "h1 = h'" and ts1: "ts1 = ts[j := t']"
      by (simp_all add: step_at_same)
    have "t' \<noteq> Finished 0"
    proof
      assume t: "t' = Finished 0"
      with ts1 Cons.prems(1) have "is_finished (snd (h1, ts1) ! j)"
        by (simp add: is_finished_def task_code_def)
      with finished_del_run [of j "(h1, ts1)" e s] l1
      have "snd (del_run e s (h1, ts1)) ! j = ts1 ! j" by simp
      with ts1 t Cons.prems(1) f1 show False by simp
    qed
    with d have "h' = h" by (rule del_step_failure_keeps_store)
    with h1 ts1 ih have "del_run e (without_turns j s) (h, without_entry j ts)
              = (fst (del_run e s (h1, ts1)), without_entry j (snd (del_run e s (h1, ts1))))"
      by (simp add: without_entry_update)
    moreover from True have "without_turns j (i # s) = without_turns j s"
      by (simp add: without_turns_def)
    ultimately show ?thesis by (simp only: whole)
  next
    case False
    from step_at_without_other [OF False Cons.prems(1), of e h] st
    have "step_at e (if j < i then i - 1 else i) (h, without_entry j ts) = (h1, without_entry j ts1)"
      by simp
    moreover from False have "without_turns j (i # s) = (if j < i then i - 1 else i) # without_turns j s"
      by (simp add: without_turns_def)
    ultimately have "del_run e (without_turns j (i # s)) (h, without_entry j ts)
        = del_run e (without_turns j s) (h1, without_entry j ts1)"
      by (simp add: del_run_def)
    with ih show ?thesis by (simp only: whole)
  qed
qed

lemma without_turns_append:
  "without_turns j (xs @ ys) = without_turns j xs @ without_turns j ys"
  by (simp add: without_turns_def)

lemma without_turns_run_out:
  "without_turns j (run_out n) = (if j < n then run_out (n - 1) else run_out n)"
proof (induction n)
  case 0
  show ?case by (simp add: run_out_def without_turns_def)
next
  case (Suc m)
  have t: "without_turns j [m, m, m]
             = (if j = m then [] else if j < m then [m - 1, m - 1, m - 1] else [m, m, m])"
    by (simp add: without_turns_def)
  show ?case
  proof (cases "j < m")
    case True
    then have "Suc (m - 1) = m" by simp
    with run_out_Suc [of "m - 1"] have "run_out (m - 1) @ [m - 1, m - 1, m - 1] = run_out m"
      by simp
    moreover from True Suc.IH have "without_turns j (run_out m) = run_out (m - 1)" by simp
    moreover from True t have "without_turns j [m, m, m] = [m - 1, m - 1, m - 1]" by simp
    moreover have "without_turns j (run_out (Suc m))
        = without_turns j (run_out m) @ without_turns j [m, m, m]"
      by (simp only: run_out_Suc without_turns_append)
    ultimately show ?thesis using True by simp
  next
    case False
    have "without_turns j (run_out (Suc m))
        = without_turns j (run_out m) @ without_turns j [m, m, m]"
      by (simp only: run_out_Suc without_turns_append)
    with False Suc.IH t show ?thesis
      by (auto simp: run_out_Suc)
  qed
qed

lemma all_finished_map:
  assumes "\<forall>j<length ts. is_finished (ts ! j)"
  shows "ts = map Finished (List.map_filter task_code ts)"
proof (rule nth_equalityI)
  from map_filter_all_finished [OF assms]
  show "length ts = length (map Finished (List.map_filter task_code ts))" by simp
next
  fix i assume "i < length ts"
  with map_filter_all_finished [OF assms]
  show "ts ! i = map Finished (List.map_filter task_code ts) ! i" by simp
qed

lemma map_filter_Finished: "List.map_filter task_code (map Finished xs) = xs"
  by (induction xs) (simp_all add: List.map_filter_simps task_code_def)

lemma del_vfs_run:
  "del_vfs e sched h (Some uris) = (Inr errs, h') \<longleftrightarrow>
   del_run e (sched @ run_out (length uris)) (h, map Start uris) = (h', map Finished errs)"
proof -
  let ?st = "del_run e (sched @ run_out (length uris)) (h, map Start uris)"
  have len1: "length (snd (del_run e sched (h, map Start uris))) = length uris"
    by (simp add: length_del_run)
  have len2: "length (snd ?st) = length uris" by (simp add: length_del_run)
  have "\<forall>j<length (snd ?st). is_finished (snd ?st ! j)"
    using run_out_finishes [of "length uris" "del_run e sched (h, map Start uris)" _ e] len1 len2
    by (simp add: del_run_append)
  then have m: "snd ?st = map Finished (List.map_filter task_code (snd ?st))"
    by (rule all_finished_map)
  show ?thesis
  proof
    assume "del_vfs e sched h (Some uris) = (Inr errs, h')"
    then have "fst ?st = h'" and "List.map_filter task_code (snd ?st) = errs"
      by (auto simp: del_vfs_def split: prod.splits)
    with m show "?st = (h', map Finished errs)" by (metis prod.collapse)
  next
    assume "?st = (h', map Finished errs)"
    then show "del_vfs e sched h (Some uris) = (Inr errs, h')"
      by (simp add: del_vfs_def map_filter_Finished)
  qed
qed

lemma del_vfs_without_failed:
  assumes r: "del_vfs e sched h (Some uris) = (Inr errs, h')"
    and j: "j < length uris" and f: "errs ! j \<noteq> 0"
  shows "del_vfs e (without_turns j sched) h (Some (without_entry j uris))
           = (Inr (without_entry j errs), h')"
proof -
  let ?full = "sched @ run_out (length uris)"
  from r have run: "del_run e ?full (h, map Start uris) = (h', map Finished errs)"
    by (simp add: del_vfs_run)
  from length_del_run [of e ?full "(h, map Start uris)"] run
  have le: "length errs = length uris" by simp
  from j have j': "j < length (map Start uris)" by simp
  from run j le f have nz: "snd (del_run e ?full (h, map Start uris)) ! j \<noteq> Finished 0" by simp
  from del_run_without [OF j' nz] run
  have "del_run e (without_turns j ?full) (h, without_entry j (map Start uris))
          = (h', without_entry j (map Finished errs))"
    by simp
  moreover from j have "without_turns j ?full
      = without_turns j sched @ run_out (length (without_entry j uris))"
    by (simp add: without_turns_append without_turns_run_out length_without_entry)
  ultimately have "del_run e (without_turns j sched @ run_out (length (without_entry j uris)))
        (h, map Start (without_entry j uris)) = (h', map Finished (without_entry j errs))"
    by (simp add: without_entry_map)
  then show ?thesis by (simp add: del_vfs_run)
qed


lemma step_at_turn: "step_at e i st = st \<or> del_turn e st (step_at e i st)"
proof (cases "i < length (snd st) \<and> \<not> is_finished (snd st ! i)")
  case True
  then show ?thesis by (auto simp: del_turn_def list_ex_iff)
next
  case False
  show ?thesis
  proof (cases "i < length (snd st)")
    case True
    with False have f: "is_finished (snd st ! i)" by simp
    then obtain c where c: "snd st ! i = Finished c"
      by (cases "snd st ! i") (auto simp: is_finished_def task_code_def)
    with True have "step_at e i st = (fst st, (snd st)[i := snd st ! i])"
      by (simp add: step_at_same)
    then show ?thesis by simp
  next
    case False
    then show ?thesis by (cases st) (simp add: step_at_def)
  qed
qed

lemma del_run_reach: "rtranclp (del_turn e) st (del_run e s st)"
proof (induction s arbitrary: st)
  case Nil
  show ?case by (simp add: del_run_def)
next
  case (Cons i s)
  have r: "del_run e (i # s) st = del_run e s (step_at e i st)" by (simp add: del_run_def)
  from step_at_turn [of e i st] show ?case
  proof
    assume "step_at e i st = st"
    with Cons.IH [of st] r show ?thesis by simp
  next
    assume "del_turn e st (step_at e i st)"
    with Cons.IH [of "step_at e i st"] r show ?thesis
      by (simp add: converse_rtranclp_into_rtranclp)
  qed
qed

lemma step_at_Suc:
  "step_at e (Suc i) (h, t # ts) = (fst (step_at e i (h, ts)), t # snd (step_at e i (h, ts)))"
  by (simp add: step_at_def split: prod.splits)

lemma del_run_map_Suc:
  "del_run e (map Suc s) (h, t # ts)
     = (fst (del_run e s (h, ts)), t # snd (del_run e s (h, ts)))"
proof (induction s arbitrary: h ts)
  case Nil
  show ?case by (simp add: del_run_def)
next
  case (Cons i s)
  obtain h1 ts1 where st: "step_at e i (h, ts) = (h1, ts1)" by (cases "step_at e i (h, ts)")
  then have "step_at e (Suc i) (h, t # ts) = (h1, t # ts1)" by (simp add: step_at_Suc)
  then have "del_run e (map Suc (i # s)) (h, t # ts) = del_run e (map Suc s) (h1, t # ts1)"
    by (simp add: del_run_def)
  also have "\<dots> = (fst (del_run e s (h1, ts1)), t # snd (del_run e s (h1, ts1)))"
    by (rule Cons.IH)
  also have "del_run e s (h1, ts1) = del_run e (i # s) (h, ts)" by (simp add: del_run_def st)
  finally show ?case .
qed

lemma run_out_Suc_front: "run_out (Suc n) = [0, 0, 0] @ map Suc (run_out n)"
proof (induction n)
  case 0
  show ?case by (simp add: run_out_def)
next
  case (Suc n)
  have "run_out (Suc (Suc n)) = run_out (Suc n) @ [Suc n, Suc n, Suc n]" by (rule run_out_Suc)
  also have "\<dots> = [0, 0, 0] @ map Suc (run_out n) @ [Suc n, Suc n, Suc n]"
    by (simp only: Suc.IH append_assoc)
  also have "map Suc (run_out n) @ [Suc n, Suc n, Suc n] = map Suc (run_out n @ [n, n, n])" by simp
  also have "run_out n @ [n, n, n] = run_out (Suc n)" by (simp only: run_out_Suc)
  finally show ?case .
qed

lemma del_run_front:
  "del_run e [0, 0, 0] (h, t # ts) = (fst (run_task e (h, t)), snd (run_task e (h, t)) # ts)"
  by (simp add: del_run_def step_at_def run_task_def split: prod.splits)

lemma del_one_finishes: "\<exists>h1 c. del_one e h u = (h1, Finished c)"
  by (simp add: del_one_table split: jsval.splits option.splits)

lemma run_task_finished: "run_task e (h, Finished c) = (h, Finished c)"
  by (simp add: run_task_def)

lemma del_vfs_first_alone:
  assumes one: "del_one e h u = (h1, Finished c)"
    and rest: "del_vfs e s h1 (Some us) = (Inr errs, h2)"
  shows "del_vfs e ([0, 0, 0] @ map Suc s) h (Some (u # us)) = (Inr (c # errs), h2)"
proof -
  let ?n = "length us"
  from rest have run: "del_run e (s @ run_out ?n) (h1, map Start us) = (h2, map Finished errs)"
    by (simp add: del_vfs_run)
  obtain h3 ts3 where a: "del_run e s (h1, map Start us) = (h3, ts3)"
    by (cases "del_run e s (h1, map Start us)")
  with run have b: "del_run e (run_out ?n) (h3, ts3) = (h2, map Finished errs)"
    by (simp add: del_run_append)
  from one have s1: "del_run e [0, 0, 0] (h, Start u # map Start us)
      = (h1, Finished c # map Start us)"
    by (simp add: del_run_front del_one_def)
  from a have s2: "del_run e (map Suc s) (h1, Finished c # map Start us) = (h3, Finished c # ts3)"
    by (simp add: del_run_map_Suc)
  have s3: "del_run e [0, 0, 0] (h3, Finished c # ts3) = (h3, Finished c # ts3)"
    by (simp add: del_run_front run_task_finished)
  from b have s4: "del_run e (map Suc (run_out ?n)) (h3, Finished c # ts3)
      = (h2, Finished c # map Finished errs)"
    by (simp add: del_run_map_Suc)
  have "del_run e (([0, 0, 0] @ map Suc s) @ run_out (length (u # us))) (h, map Start (u # us))
      = del_run e (map Suc (run_out ?n)) (del_run e [0, 0, 0] (del_run e (map Suc s)
          (del_run e [0, 0, 0] (h, Start u # map Start us))))"
    by (simp only: length_Cons run_out_Suc_front del_run_append list.map append_assoc)
  also have "\<dots> = (h2, map Finished (c # errs))"
    by (simp only: s1 s2 s3 s4 list.map)
  finally show ?thesis by (simp only: del_vfs_run)
qed

lemma del_vfs_in_order:
  assumes one: "del_one e h u = (h1, Finished c)"
    and rest: "del_vfs e [] h1 (Some us) = (Inr errs, h2)"
  shows "del_vfs e [] h (Some (u # us)) = (Inr (c # errs), h2)"
proof -
  let ?n = "length us"
  from rest have run: "del_run e (run_out ?n) (h1, map Start us) = (h2, map Finished errs)"
    by (simp add: del_vfs_run)
  from one have s1: "del_run e [0, 0, 0] (h, Start u # map Start us)
      = (h1, Finished c # map Start us)"
    by (simp add: del_run_front del_one_def)
  from run have s2: "del_run e (map Suc (run_out ?n)) (h1, Finished c # map Start us)
      = (h2, Finished c # map Finished errs)"
    by (simp add: del_run_map_Suc)
  have "del_run e ([] @ run_out (length (u # us))) (h, map Start (u # us))
      = del_run e (map Suc (run_out ?n)) (del_run e [0, 0, 0] (h, Start u # map Start us))"
    by (simp only: length_Cons run_out_Suc_front del_run_append list.map append_Nil)
  also have "\<dots> = (h2, map Finished (c # errs))"
    by (simp only: s1 s2 list.map)
  finally show ?thesis by (simp only: del_vfs_run)
qed


lemma set_children_same: "children (deref h p) = Some cs \<Longrightarrow> set_children h p (Some cs) = h"
proof -
  assume a: "children (deref h p) = Some cs"
  then have "p < length h" by (cases "p < length h") (simp_all add: deref_def)
  with a show ?thesis by (simp add: set_children_def deref_def list_update_same_conv)
qed

lemma del_vfs_empty_children:
  assumes "uri \<noteq> ''/''" and "urlToNodeOriginal e h uri = Some node"
    and "urlToNodeOriginal e h (dirname uri) = Some q" and "children (deref h q) = Some []"
  shows "del_vfs e sched h (Some [Str uri]) = (Inr [0], h)"
proof -
  from assms have "del_one e h (Str uri) = (set_children h q (Some []), Finished 0)"
    by (simp add: del_one_table splice1_def)
  with set_children_same [OF assms(4)] show ?thesis
    by (simp add: del_vfs_single List.map_filter_simps task_code_def)
qed

text \<open>
  C6, as the code has it. Whatever the order in which the callbacks take their turns,
  \<^verbatim>\<open>del_vfs\<close> answers with one code for every URI of the list, and the code of an entry is
  of the kind its URI allows: bad request for an entry that is not a string, not acceptable
  for \<^verbatim>\<open>/\<close>, and not found, internal error or 0 for any other string. The answer is reached
  from the callbacks as they start by turns of callbacks that are not finished, each on the
  tree of its moment. An entry that ends with an error code can be left out of the list,
  with its turns, and neither the codes of the other entries nor the resulting tree
  change. When the callback of the first URI runs to its end before the others take a turn,
  as it does when the URIs are processed in their order, its code is that of the URI alone
  on the tree, and the rest of the list is processed on the tree that it leaves.

  A single URI yields not found when it does not resolve, internal error when its parent
  does not resolve or has no \<^verbatim>\<open>children\<close> property, and 0 with \<^verbatim>\<open>splice\<close> applied to the
  children of the parent otherwise. So a URI that begins with a separator and resolves to a
  node other than the root has this node taken out of the children of its parent; and a
  parent whose \<^verbatim>\<open>children\<close> array is empty is no error: the code is 0 and the tree stays as
  it is. \<^verbatim>\<open>/\<close> and the failures leave the tree as it is. No step of a callback other than
  the one that ends with 0 changes the tree, and 0 is none of the error codes.
\<close>

theorem del_vfs_outcomes:
  "(\<exists>errs h'. del_vfs e sched h (Some uris) = (Inr errs, h') \<and> length errs = length uris
       \<and> (\<forall>i<length uris.
             case uris ! i of
               Str uri \<Rightarrow>
                 if uri = ''/'' then errs ! i = HTTP_NOT_ACCEPTABLE
                 else errs ! i = HTTP_NOT_FOUND \<or> errs ! i = HTTP_SERVER_ERROR \<or> errs ! i = 0
             | _ \<Rightarrow> errs ! i = HTTP_BAD_REQUEST)
       \<and> rtranclp (del_turn e) (h, map Start uris) (h', map Finished errs)
       \<and> (\<forall>j<length uris. errs ! j \<noteq> 0 \<longrightarrow>
             del_vfs e (without_turns j sched) h (Some (without_entry j uris))
               = (Inr (without_entry j errs), h')))
   \<and> (\<exists>h1 c. del_one e h u = (h1, Finished c)
        \<and> (\<exists>errs h2. del_vfs e [] h1 (Some us) = (Inr errs, h2)
               \<and> del_vfs e [] h (Some (u # us)) = (Inr (c # errs), h2))
        \<and> (\<exists>errs h2. del_vfs e sched h1 (Some us) = (Inr errs, h2)
               \<and> del_vfs e ([0, 0, 0] @ map Suc sched) h (Some (u # us)) = (Inr (c # errs), h2)))
   \<and> del_vfs e sched h (Some [u]) =
       (case del_one e h u of (h', t) \<Rightarrow> (Inr (List.map_filter task_code [t]), h'))
   \<and> del_one e h u =
       (case u of
          Str uri \<Rightarrow>
            if uri = ''/'' then (h, Finished HTTP_NOT_ACCEPTABLE)
            else (case urlToNodeOriginal e h uri of
                    None \<Rightarrow> (h, Finished HTTP_NOT_FOUND)
                  | Some node \<Rightarrow>
                      (case urlToNodeOriginal e h (dirname uri) of
                         None \<Rightarrow> (h, Finished HTTP_SERVER_ERROR)
                       | Some p \<Rightarrow>
                           (case children (deref h p) of
                              None \<Rightarrow> (h, Finished HTTP_SERVER_ERROR)
                            | Some cs \<Rightarrow>
                                (set_children h p (Some (splice1 cs (indexOf cs node))),
                                 Finished 0))))
        | _ \<Rightarrow> (h, Finished HTTP_BAD_REQUEST))
   \<and> (hd uri = slash \<and> segments uri \<noteq> [] \<and> urlToNodeOriginal e h uri = Some node \<longrightarrow>
        (\<exists>p. urlToNodeOriginal e h (dirname uri) = Some p \<and> node \<in> set (kids h p)
           \<and> del_vfs e sched h (Some [Str uri])
               = (Inr [0], set_children h p (Some (remove1 node (kids h p))))))
   \<and> (uri \<noteq> ''/'' \<and> urlToNodeOriginal e h uri = Some node
        \<and> urlToNodeOriginal e h (dirname uri) = Some q \<and> children (deref h q) = Some [] \<longrightarrow>
        del_vfs e sched h (Some [Str uri]) = (Inr [0], h))
   \<and> (\<forall>t h1 t1. del_step e h t = (h1, t1) \<and> t1 \<noteq> Finished 0 \<longrightarrow> h1 = h)
   \<and> 0 \<notin> {HTTP_BAD_REQUEST, HTTP_NOT_ACCEPTABLE, HTTP_NOT_FOUND, HTTP_SERVER_ERROR}"
proof -
  from del_vfs_codes [of e sched h uris] obtain errs h' where
    r: "del_vfs e sched h (Some uris) = (Inr errs, h')" and l: "length errs = length uris"
    and t: "\<forall>i<length uris. task_for (uris ! i) (Finished (errs ! i))"
    by blast
  from t have k: "(\<forall>i<length uris.
             case uris ! i of
               Str uri \<Rightarrow>
                 if uri = ''/'' then errs ! i = HTTP_NOT_ACCEPTABLE
                 else errs ! i = HTTP_NOT_FOUND \<or> errs ! i = HTTP_SERVER_ERROR \<or> errs ! i = 0
             | _ \<Rightarrow> errs ! i = HTTP_BAD_REQUEST)"
    by (simp add: task_for_def)
  from r have "del_run e (sched @ run_out (length uris)) (h, map Start uris)
                 = (h', map Finished errs)"
    by (simp add: del_vfs_run)
  with del_run_reach [of e "(h, map Start uris)" "sched @ run_out (length uris)"]
  have reach: "rtranclp (del_turn e) (h, map Start uris) (h', map Finished errs)" by simp
  from r have drop: "\<forall>j<length uris. errs ! j \<noteq> 0 \<longrightarrow>
             del_vfs e (without_turns j sched) h (Some (without_entry j uris))
               = (Inr (without_entry j errs), h')"
    by (simp add: del_vfs_without_failed)
  from r l k reach drop have batch: "(\<exists>errs h'. del_vfs e sched h (Some uris) = (Inr errs, h') \<and> length errs = length uris
       \<and> (\<forall>i<length uris.
             case uris ! i of
               Str uri \<Rightarrow>
                 if uri = ''/'' then errs ! i = HTTP_NOT_ACCEPTABLE
                 else errs ! i = HTTP_NOT_FOUND \<or> errs ! i = HTTP_SERVER_ERROR \<or> errs ! i = 0
             | _ \<Rightarrow> errs ! i = HTTP_BAD_REQUEST)
       \<and> rtranclp (del_turn e) (h, map Start uris) (h', map Finished errs)
       \<and> (\<forall>j<length uris. errs ! j \<noteq> 0 \<longrightarrow>
             del_vfs e (without_turns j sched) h (Some (without_entry j uris))
               = (Inr (without_entry j errs), h')))"
    by blast
  from del_one_finishes [of e h u] obtain h1 c where one: "del_one e h u = (h1, Finished c)"
    by blast
  from del_vfs_codes [of e "[]" h1 us] obtain errs1 h2 where
    r1: "del_vfs e [] h1 (Some us) = (Inr errs1, h2)" by blast
  from del_vfs_codes [of e sched h1 us] obtain errs2 h3 where
    r2: "del_vfs e sched h1 (Some us) = (Inr errs2, h3)" by blast
  from one r1 r2 del_vfs_in_order [OF one r1] del_vfs_first_alone [OF one r2]
  have serial: "(\<exists>h1 c. del_one e h u = (h1, Finished c)
        \<and> (\<exists>errs h2. del_vfs e [] h1 (Some us) = (Inr errs, h2)
               \<and> del_vfs e [] h (Some (u # us)) = (Inr (c # errs), h2))
        \<and> (\<exists>errs h2. del_vfs e sched h1 (Some us) = (Inr errs, h2)
               \<and> del_vfs e ([0, 0, 0] @ map Suc sched) h (Some (u # us)) = (Inr (c # errs), h2)))"
    by blast
  have single: "del_vfs e sched h (Some [u]) =
       (case del_one e h u of (h', t) \<Rightarrow> (Inr (List.map_filter task_code [t]), h'))"
    by (rule del_vfs_single)
  have tab: "del_one e h u =
       (case u of
          Str uri \<Rightarrow>
            if uri = ''/'' then (h, Finished HTTP_NOT_ACCEPTABLE)
            else (case urlToNodeOriginal e h uri of
                    None \<Rightarrow> (h, Finished HTTP_NOT_FOUND)
                  | Some node \<Rightarrow>
                      (case urlToNodeOriginal e h (dirname uri) of
                         None \<Rightarrow> (h, Finished HTTP_SERVER_ERROR)
                       | Some p \<Rightarrow>
                           (case children (deref h p) of
                              None \<Rightarrow> (h, Finished HTTP_SERVER_ERROR)
                            | Some cs \<Rightarrow>
                                (set_children h p (Some (splice1 cs (indexOf cs node))),
                                 Finished 0))))
        | _ \<Rightarrow> (h, Finished HTTP_BAD_REQUEST))"
    by (rule del_one_table)
  have rooted: "(hd uri = slash \<and> segments uri \<noteq> [] \<and> urlToNodeOriginal e h uri = Some node \<longrightarrow>
        (\<exists>p. urlToNodeOriginal e h (dirname uri) = Some p \<and> node \<in> set (kids h p)
           \<and> del_vfs e sched h (Some [Str uri])
               = (Inr [0], set_children h p (Some (remove1 node (kids h p))))))"
    using del_vfs_rooted_success [of uri e h node sched] by blast
  have empty: "(uri \<noteq> ''/'' \<and> urlToNodeOriginal e h uri = Some node
        \<and> urlToNodeOriginal e h (dirname uri) = Some q \<and> children (deref h q) = Some [] \<longrightarrow>
        del_vfs e sched h (Some [Str uri]) = (Inr [0], h))"
    using del_vfs_empty_children [of uri e h node q sched] by blast
  have keep: "(\<forall>t h1 t1. del_step e h t = (h1, t1) \<and> t1 \<noteq> Finished 0 \<longrightarrow> h1 = h)"
    using del_step_failure_keeps_store by blast
  have codes: "0 \<notin> {HTTP_BAD_REQUEST, HTTP_NOT_ACCEPTABLE, HTTP_NOT_FOUND, HTTP_SERVER_ERROR}"
    by (simp add: HTTP_BAD_REQUEST_def HTTP_NOT_ACCEPTABLE_def HTTP_NOT_FOUND_def
        HTTP_SERVER_ERROR_def)
  show ?thesis
    by (intro conjI batch serial single tab rooted empty keep codes)
qed

theorem del_vfs_outcomes_witness:
  "del_vfs example_env [4, 0, 3, 0, 4, 1] example_tree
     (Some [Str ''/a'', Num 3, Str ''/'', Str ''/zz'', Str ''/b/c'']) =
     (Inr [0, HTTP_BAD_REQUEST, HTTP_NOT_ACCEPTABLE, HTTP_NOT_FOUND, 0],
      [\<lparr>props = [], children = Some [2]\<rparr>,
       \<lparr>props = [(''name'', Str ''a'')], children = None\<rparr>,
       \<lparr>props = [(''source'', Str ''/x/b'')], children = Some []\<rparr>,
       \<lparr>props = [(''name'', Str ''c'')], children = None\<rparr>])
   \<and> del_vfs example_env [3, 0, 2, 0, 3] example_tree
       (Some [Str ''/a'', Str ''/'', Str ''/zz'', Str ''/b/c'']) =
     (Inr [0, HTTP_NOT_ACCEPTABLE, HTTP_NOT_FOUND, 0],
      [\<lparr>props = [], children = Some [2]\<rparr>,
       \<lparr>props = [(''name'', Str ''a'')], children = None\<rparr>,
       \<lparr>props = [(''source'', Str ''/x/b'')], children = Some []\<rparr>,
       \<lparr>props = [(''name'', Str ''c'')], children = None\<rparr>])
   \<and> rtranclp (del_turn example_env)
        (example_tree, map Start [Str ''/a'', Num 3, Str ''/'', Str ''/zz'', Str ''/b/c''])
        ([\<lparr>props = [], children = Some [2]\<rparr>,
          \<lparr>props = [(''name'', Str ''a'')], children = None\<rparr>,
          \<lparr>props = [(''source'', Str ''/x/b'')], children = Some []\<rparr>,
          \<lparr>props = [(''name'', Str ''c'')], children = None\<rparr>],
         map Finished [0, HTTP_BAD_REQUEST, HTTP_NOT_ACCEPTABLE, HTTP_NOT_FOUND, 0])
   \<and> urlToNodeOriginal example_env example_tree ''/a'' = Some 1
   \<and> urlToNodeOriginal example_env example_tree (dirname ''/a'') = Some 0
   \<and> del_vfs example_env [4, 0, 3, 0, 4, 1] example_tree (Some [Str ''/a''])
       = (Inr [0],
          [\<lparr>props = [], children = Some [2]\<rparr>,
           \<lparr>props = [(''name'', Str ''a'')], children = None\<rparr>,
           \<lparr>props = [(''source'', Str ''/x/b'')], children = Some [3]\<rparr>,
           \<lparr>props = [(''name'', Str ''c'')], children = None\<rparr>])
   \<and> del_vfs example_env [1, 0, 1, 0, 0, 1] example_tree (Some [Str ''a''])
       = (Inr [HTTP_SERVER_ERROR], example_tree)
   \<and> del_vfs example_env [0, 0] emptied_tree (Some [Str ''//'']) = (Inr [0], emptied_tree)
   \<and> del_step example_env example_tree (Start (Str ''/zz''))
       = (example_tree, Finished HTTP_NOT_FOUND)"
proof -
  let ?us = "[Str ''/a'', Num 3, Str ''/'', Str ''/zz'', Str ''/b/c'']"
  let ?H = "[\<lparr>props = [], children = Some [2]\<rparr>,
       \<lparr>props = [(''name'', Str ''a'')], children = None\<rparr>,
       \<lparr>props = [(''source'', Str ''/x/b'')], children = Some []\<rparr>,
       \<lparr>props = [(''name'', Str ''c'')], children = None\<rparr>]"
  have a: "del_vfs example_env [4, 0, 3, 0, 4, 1] example_tree (Some ?us) =
     (Inr [0, HTTP_BAD_REQUEST, HTTP_NOT_ACCEPTABLE, HTTP_NOT_FOUND, 0], ?H)"
    by code_simp
  from del_vfs_outcomes [of example_env "[4, 0, 3, 0, 4, 1]" example_tree ?us, THEN conjunct1]
  obtain errs h' where r: "del_vfs example_env [4, 0, 3, 0, 4, 1] example_tree (Some ?us) = (Inr errs, h')"
    and reach: "rtranclp (del_turn example_env) (example_tree, map Start ?us) (h', map Finished errs)"
    and drop: "\<forall>j<length ?us. errs ! j \<noteq> 0 \<longrightarrow>
             del_vfs example_env (without_turns j [4, 0, 3, 0, 4, 1]) example_tree
                 (Some (without_entry j ?us))
               = (Inr (without_entry j errs), h')"
    by blast
  from r a have errs: "errs = [0, HTTP_BAD_REQUEST, HTTP_NOT_ACCEPTABLE, HTTP_NOT_FOUND, 0]"
    and h': "h' = ?H" by simp_all
  from drop have "errs ! 1 \<noteq> 0 \<longrightarrow>
             del_vfs example_env (without_turns 1 [4, 0, 3, 0, 4, 1]) example_tree
                 (Some (without_entry 1 ?us))
               = (Inr (without_entry 1 errs), h')"
    by (rule allE [of _ 1]) simp
  then have b: "del_vfs example_env [3, 0, 2, 0, 3] example_tree
       (Some [Str ''/a'', Str ''/'', Str ''/zz'', Str ''/b/c'']) =
     (Inr [0, HTTP_NOT_ACCEPTABLE, HTTP_NOT_FOUND, 0], ?H)"
    by (simp add: errs h' without_turns_def without_entry_def HTTP_BAD_REQUEST_def)
  from reach have c: "rtranclp (del_turn example_env) (example_tree, map Start ?us)
      (?H, map Finished [0, HTTP_BAD_REQUEST, HTTP_NOT_ACCEPTABLE, HTTP_NOT_FOUND, 0])"
    by (simp only: errs h')
  have n: "urlToNodeOriginal example_env example_tree ''/a'' = Some 1" by code_simp
  have p: "urlToNodeOriginal example_env example_tree (dirname ''/a'') = Some 0" by code_simp
  have sg: "hd ''/a'' = slash \<and> segments ''/a'' \<noteq> []" by code_simp
  have k: "set_children example_tree 0 (Some (remove1 1 (kids example_tree 0)))
            = [\<lparr>props = [], children = Some [2]\<rparr>,
               \<lparr>props = [(''name'', Str ''a'')], children = None\<rparr>,
               \<lparr>props = [(''source'', Str ''/x/b'')], children = Some [3]\<rparr>,
               \<lparr>props = [(''name'', Str ''c'')], children = None\<rparr>]"
    by code_simp
  from del_vfs_outcomes [of example_env "[4, 0, 3, 0, 4, 1]" example_tree "[]" "Null" "[]"
      "''/a''" 1, THEN conjunct2, THEN conjunct2, THEN conjunct2, THEN conjunct2, THEN conjunct1]
    sg n
  obtain p' where "urlToNodeOriginal example_env example_tree (dirname ''/a'') = Some p'"
    and "del_vfs example_env [4, 0, 3, 0, 4, 1] example_tree (Some [Str ''/a''])
               = (Inr [0], set_children example_tree p' (Some (remove1 1 (kids example_tree p'))))"
    by blast
  with p k have d: "del_vfs example_env [4, 0, 3, 0, 4, 1] example_tree (Some [Str ''/a''])
       = (Inr [0],
          [\<lparr>props = [], children = Some [2]\<rparr>,
           \<lparr>props = [(''name'', Str ''a'')], children = None\<rparr>,
           \<lparr>props = [(''source'', Str ''/x/b'')], children = Some [3]\<rparr>,
           \<lparr>props = [(''name'', Str ''c'')], children = None\<rparr>])"
    by simp
  have r2: "urlToNodeOriginal example_env example_tree ''a'' = Some 1
     \<and> urlToNodeOriginal example_env example_tree (dirname ''a'') = None"
    by code_simp
  have r3: "del_one example_env example_tree (Str ''a'')
       = (example_tree, Finished HTTP_SERVER_ERROR)"
    using del_vfs_outcomes [of example_env "[]" example_tree "[]" "Str ''a''",
        THEN conjunct2, THEN conjunct2, THEN conjunct2, THEN conjunct1] r2
    by simp
  have f: "del_vfs example_env [1, 0, 1, 0, 0, 1] example_tree (Some [Str ''a''])
       = (Inr [HTTP_SERVER_ERROR], example_tree)"
    using del_vfs_outcomes [of example_env "[1, 0, 1, 0, 0, 1]" example_tree "[]" "Str ''a''",
        THEN conjunct2, THEN conjunct2, THEN conjunct1] r3
    by (simp add: List.map_filter_simps task_code_def)
  have e1: "''//'' \<noteq> ''/'' \<and> urlToNodeOriginal example_env emptied_tree ''//'' = Some 0
     \<and> urlToNodeOriginal example_env emptied_tree (dirname ''//'') = Some 0
     \<and> children (deref emptied_tree 0) = Some []"
    by code_simp
  with del_vfs_outcomes [of example_env "[0, 0]" emptied_tree "[]" "Null" "[]" "''//''" 0 0,
      THEN conjunct2, THEN conjunct2, THEN conjunct2, THEN conjunct2, THEN conjunct2,
      THEN conjunct1]
  have g: "del_vfs example_env [0, 0] emptied_tree (Some [Str ''//'']) = (Inr [0], emptied_tree)"
    by blast
  have s: "del_step example_env example_tree (Start (Str ''/zz''))
       = (example_tree, Finished HTTP_NOT_FOUND)"
    by code_simp
  show ?thesis
    by (intro conjI a b c n p d f g s)
qed

text \<open>
  The claim as stated fails for a parent that has no children left: under the URI \<^verbatim>\<open>//\<close>
  the root is the node and its own parent, its \<^verbatim>\<open>children\<close> array is empty, and the code is
  0, not the internal error. The same happens to the last URI of a list that deletes both
  children of the root first.
\<close>

theorem del_vfs_empty_children_yields_0:
  "urlToNodeOriginal example_env emptied_tree ''//'' = Some 0
   \<and> urlToNodeOriginal example_env emptied_tree (dirname ''//'') = Some 0
   \<and> children (deref emptied_tree 0) = Some []
   \<and> del_vfs example_env [] emptied_tree (Some [Str ''//'']) = (Inr [0], emptied_tree)
   \<and> del_vfs example_env [] example_tree (Some [Str ''/a'', Str ''/b'', Str ''//''])
       = (Inr [0, 0, 0],
          [\<lparr>props = [], children = Some []\<rparr>,
           \<lparr>props = [(''name'', Str ''a'')], children = None\<rparr>,
           \<lparr>props = [(''source'', Str ''/x/b'')], children = Some [3]\<rparr>,
           \<lparr>props = [(''name'', Str ''c'')], children = None\<rparr>])
   \<and> HTTP_SERVER_ERROR \<noteq> 0"
  by code_simp

text \<open>
  C9. When the node and the parent of a URI resolve and the parent has a non-empty
  \<^verbatim>\<open>children\<close> array that does not hold the node, \<^verbatim>\<open>indexOf\<close> is \<open>-1\<close> and \<^verbatim>\<open>splice(-1, 1)\<close>
  removes the last child of the parent; the code is 0. This is so for the last step of a
  callback on any store, and for \<^verbatim>\<open>del_vfs\<close> of the single URI.
\<close>

theorem del_vfs_missing_node_removes_last:
  assumes "wf_heap h" and "uri \<noteq> ''/''"
    and "urlToNodeOriginal e h uri = Some node"
    and "urlToNodeOriginal e h (dirname uri) = Some p"
    and "children (deref h p) = Some cs" and "cs \<noteq> []" and "node \<notin> set cs"
  shows "del_step e h (GotParent node (Some p))
           = (set_children h p (Some (butlast cs)), Finished 0)
       \<and> del_vfs e sched h (Some [Str uri]) = (Inr [0], set_children h p (Some (butlast cs)))
       \<and> children (deref (set_children h p (Some (butlast cs))) p) = Some (butlast cs)"
proof -
  from assms(7) have i: "indexOf cs node = - 1" by (rule indexOf_notin)
  from assms(6) have s: "splice1 cs (- 1) = butlast cs" by (rule splice1_last)
  from assms(1,4) have v: "p < length h" by (rule urlToNodeOriginal_valid)
  have a: "del_step e h (GotParent node (Some p))
           = (set_children h p (Some (butlast cs)), Finished 0)"
    using assms(5) i s by simp
  have "del_one e h (Str uri) = (set_children h p (Some (butlast cs)), Finished 0)"
    using assms(2,3,4,5) i s by (simp add: del_one_table)
  then have b: "del_vfs e sched h (Some [Str uri])
                  = (Inr [0], set_children h p (Some (butlast cs)))"
    by (simp add: del_vfs_single List.map_filter_simps task_code_def)
  have c: "children (deref (set_children h p (Some (butlast cs))) p) = Some (butlast cs)"
    using v by (simp add: deref_set_children)
  from a b c show ?thesis by blast
qed

theorem del_vfs_missing_node_removes_last_witness:
  "wf_heap example_tree
   \<and> urlToNodeOriginal example_env example_tree ''//'' = Some 0
   \<and> urlToNodeOriginal example_env example_tree (dirname ''//'') = Some 0
   \<and> children (deref example_tree 0) = Some [1, 2]
   \<and> del_vfs example_env [] example_tree (Some [Str ''//''])
       = (Inr [0], set_children example_tree 0 (Some (butlast [1, 2])))
   \<and> children (deref (set_children example_tree 0 (Some (butlast [1, 2]))) 0) = Some [1]"
proof -
  have w: "wf_heap example_tree" by code_simp
  have u: "''//'' \<noteq> ''/''" by simp
  have n: "urlToNodeOriginal example_env example_tree ''//'' = Some 0" by code_simp
  have p: "urlToNodeOriginal example_env example_tree (dirname ''//'') = Some 0" by code_simp
  have c: "children (deref example_tree 0) = Some [1, 2]" by code_simp
  have e: "[1, 2] \<noteq> ([] :: nat list)" by simp
  have m: "0 \<notin> set [1, 2 :: nat]" by simp
  from del_vfs_missing_node_removes_last [OF w u n p c e m, of "[]"] w n p c
  show ?thesis by simp
qed

section \<open>Adding a node\<close>

lemma disambiguate_free:
  "\<not> name_taken e h p name \<Longrightarrow> disambiguate e h p noExt ext idx name = name"
  by (simp add: disambiguate.simps)

lemma disambiguate_taken:
  "name_taken e h p name \<Longrightarrow>
   \<exists>k\<ge>idx. disambiguate e h p noExt ext idx name = numbered noExt ext k
         \<and> \<not> name_taken e h p (numbered noExt ext k)
         \<and> (\<forall>j. idx \<le> j \<and> j < k \<longrightarrow> name_taken e h p (numbered noExt ext j))"
proof (induction e h p noExt ext idx name rule: disambiguate.induct)
  case (1 e h p noExt ext idx name)
  from "1.prems" have unfold: "disambiguate e h p noExt ext idx name
      = disambiguate e h p noExt ext (Suc idx) (numbered noExt ext idx)"
    by (simp add: disambiguate.simps [of e h p noExt ext idx name])
  show ?case
  proof (cases "name_taken e h p (numbered noExt ext idx)")
    case False
    then have "disambiguate e h p noExt ext (Suc idx) (numbered noExt ext idx)
        = numbered noExt ext idx"
      by (rule disambiguate_free)
    with unfold False show ?thesis by auto
  next
    case True
    from "1.IH" [OF "1.prems" True] obtain k where k: "Suc idx \<le> k"
      and r: "disambiguate e h p noExt ext (Suc idx) (numbered noExt ext idx) = numbered noExt ext k"
      and f: "\<not> name_taken e h p (numbered noExt ext k)"
      and t: "\<forall>j. Suc idx \<le> j \<and> j < k \<longrightarrow> name_taken e h p (numbered noExt ext j)"
      by blast
    have "\<forall>j. idx \<le> j \<and> j < k \<longrightarrow> name_taken e h p (numbered noExt ext j)"
    proof (intro allI impI)
      fix j assume j: "idx \<le> j \<and> j < k"
      show "name_taken e h p (numbered noExt ext j)"
      proof (cases "j = idx")
        case True
        with \<open>name_taken e h p (numbered noExt ext idx)\<close> show ?thesis by simp
      next
        case False
        with j have "Suc idx \<le> j \<and> j < k" by simp
        with t show ?thesis by blast
      qed
    qed
    with k r f unfold show ?thesis by (intro exI [of _ k]) simp
  qed
qed

lemma getNodeName_simplifyName: "getNodeName (simplifyName node) = getNodeName node"
proof (cases "obj_get node ''name'' = Str (getNodeName (AList.delete ''name'' node))")
  case False
  then show ?thesis by (auto simp: simplifyName_def Let_def)
next
  case True
  then have s: "simplifyName node = AList.delete ''name'' node"
    by (simp add: simplifyName_def Let_def)
  have src: "obj_get (AList.delete ''name'' node) ''source'' = obj_get node ''source''"
    by (simp add: obj_get_delete_other)
  have del: "getNodeName (AList.delete ''name'' node)
      = (case obj_get node ''source'' of Str s \<Rightarrow> basename s | _ \<Rightarrow> [])"
    by (simp add: getNodeName_def obj_get_delete_same src)
  show ?thesis
  proof (cases "getNodeName (AList.delete ''name'' node) = []")
    case e: True
    with True have "obj_get node ''name'' = Str []" by simp
    then have "getNodeName node = (case obj_get node ''source'' of Str s \<Rightarrow> basename s | _ \<Rightarrow> [])"
      by (simp add: getNodeName_def)
    with del s show ?thesis by simp
  next
    case ne: False
    with True have "getNodeName node = getNodeName (AList.delete ''name'' node)"
      by (simp add: getNodeName_def [of node])
    with s show ?thesis by simp
  qed
qed

lemma getNodeName_named:
  "r \<noteq> [] \<Longrightarrow> getNodeName (AList.update ''name'' (Str r) child) = r"
  by (simp add: getNodeName_def obj_get_update)

lemma numbered_nonempty: "numbered noExt ext k \<noteq> []"
  by (simp add: numbered_def)

lemma deref_append_old: "a < length h \<Longrightarrow> deref (h @ [x]) a = deref h a"
  by (simp add: deref_def nth_append)

lemma deref_append_new: "deref (h @ [x]) (length h) = x"
  by (simp add: deref_def)

lemma add_parent_valid:
  "wf_heap h \<Longrightarrow> add_parent e h parent = Some p \<Longrightarrow> p < length h"
  by (auto simp: add_parent_def wf_heap_def vfs_def urlToNodeOriginal_valid
           split: option.splits if_splits)





lemma add_vfs_InrD:
  assumes "add_vfs e h parent source name = (Inr result, h')"
  shows "\<exists>p. add_parent e h parent = Some p
           \<and> result = disambiguate e h p (without_ext (getNodeName (new_child e source name)))
                        (extname (getNodeName (new_child e source name))) 2
                        (getNodeName (new_child e source name))
           \<and> h' = set_children
                    (h @ [\<lparr>props = simplifyName (AList.update ''name'' (Str result)
                                                    (new_child e source name)),
                           children = None\<rparr>])
                    p
                    (Some (length h #
                           kids (h @ [\<lparr>props = simplifyName (AList.update ''name'' (Str result)
                                                              (new_child e source name)),
                                       children = None\<rparr>]) p))"
  using assms
  by (auto simp: add_vfs_def Let_def split: option.splits if_splits)


lemma add_vfs_passes_iff:
  "(\<exists>result h'. add_vfs e h parent source name = (Inr result, h')) \<longleftrightarrow>
   \<not> ((source = None \<or> source = Some []) \<and> (name = None \<or> name = Some []))
   \<and> (\<exists>p. add_parent e h parent = Some p \<and> nodeIsDirectory e (deref h p))
   \<and> (case add_source e source of None \<Rightarrow> True | Some s \<Rightarrow> s = [] \<or> isDirectory e s \<noteq> None)"
  by (auto simp: add_vfs_def Let_def split: option.splits)




section \<open>Uniqueness of the names of siblings\<close>

lemma unique_names_iff:
  "unique_names h = (\<forall>a<length h. distinct (map (nodeName h) (kids h a)))"
  by (auto simp: unique_names_def list_all_length kids_def deref_def split: option.splits)

lemma wf_heap_kids: "wf_heap h \<Longrightarrow> c \<in> set (kids h a) \<Longrightarrow> c < length h"
proof (cases "children (deref h a)")
  case None
  assume "c \<in> set (kids h a)"
  with None show ?thesis by (simp add: kids_def)
next
  case (Some cs)
  assume "wf_heap h" and "c \<in> set (kids h a)"
  with Some show ?thesis by (auto simp: kids_def intro: wf_heap_child)
qed

lemma kids_set_children:
  "a < length h \<Longrightarrow>
   kids (set_children h a cs) b
     = (if b = a then (case cs of None \<Rightarrow> [] | Some c \<Rightarrow> c) else kids h b)"
  by (simp add: kids_def deref_set_children)

lemma kids_detach:
  "op < length h \<Longrightarrow>
   kids (detach h op f) a = (if a = op then removeAll f (kids h op) else kids h a)"
  by (auto simp: kids_def deref_detach split: option.splits)

lemma kids_push_child:
  "p < length h \<Longrightarrow> kids (push_child h p f) a = (if a = p then kids h p @ [f] else kids h a)"
  by (auto simp: kids_def deref_push_child split: option.splits)

lemma nodeName_detach: "nodeName (detach h op f) a = nodeName h a"
  by (simp add: nodeName_def deref_detach)

lemma nodeName_push_child: "nodeName (push_child h p f) a = nodeName h a"
  by (simp add: nodeName_def deref_push_child)

lemma distinct_map_removeAll:
  "distinct (map g xs) \<Longrightarrow> distinct (map g (removeAll x xs))"
  by (simp add: removeAll_filter_not_eq distinct_map_filter)

text \<open>A successful \<^verbatim>\<open>move_vfs\<close> keeps the names of siblings distinct.\<close>

lemma move_vfs_keeps_unique_names:
  assumes wf: "wf_heap h" and un: "unique_names h"
    and ok: "move_vfs e h from parent = (Inr u, h')"
  shows "unique_names h'"
proof -
  from move_vfs_InrD [OF ok] obtain f p fromNode parentNode oldParent where
    rp: "urlToNodeOriginal e h p = Some parentNode"
    and free: "\<not> has_child_named h parentNode (nodeName h fromNode)"
    and ro: "urlToNodeOriginal e h (dirname f) = Some oldParent"
    and h': "h' = push_child (detach h oldParent fromNode) parentNode fromNode"
    by blast
  from wf rp have vp: "parentNode < length h" by (rule urlToNodeOriginal_valid)
  from wf ro have vo: "oldParent < length h" by (rule urlToNodeOriginal_valid)
  have names: "nodeName h' = nodeName h"
    by (rule ext) (simp add: h' nodeName_push_child nodeName_detach)
  have len: "length h' = length h"
    by (simp add: h' length_push_child length_detach)
  from free have fresh: "nodeName h fromNode \<notin> nodeName h ` set (kids h parentNode)"
    by (simp add: has_child_named_iff)
  have "distinct (map (nodeName h) (kids h' a))" if a: "a < length h" for a
  proof -
    from un a have d: "distinct (map (nodeName h) (kids h a))"
      by (simp add: unique_names_iff)
    let ?base = "kids (detach h oldParent fromNode) a"
    have base: "distinct (map (nodeName h) ?base) \<and> set ?base \<subseteq> set (kids h a)"
      using d vo by (auto simp: kids_detach distinct_map_removeAll)
    show ?thesis
    proof (cases "a = parentNode")
      case True
      with vp have "kids h' a = ?base @ [fromNode]"
        by (simp add: h' kids_push_child length_detach)
      moreover from base fresh True have "nodeName h fromNode \<notin> nodeName h ` set ?base"
        by auto
      ultimately show ?thesis using base by simp
    next
      case False
      with vp have "kids h' a = ?base"
        by (simp add: h' kids_push_child length_detach)
      with base show ?thesis by simp
    qed
  qed
  then show ?thesis by (simp add: unique_names_iff names len)
qed

lemma disambiguate_not_taken:
  "\<not> name_taken e h p (disambiguate e h p noExt ext idx name)"
proof (cases "name_taken e h p name")
  case True
  from disambiguate_taken [OF this, of idx noExt ext] show ?thesis by auto
next
  case False
  then show ?thesis by (simp add: disambiguate_free)
qed

lemma getNodeName_renamed:
  "getNodeName (AList.update ''name'' (Str (disambiguate e h p noExt ext idx (getNodeName child)))
                  child)
     = disambiguate e h p noExt ext idx (getNodeName child)"
proof (cases "disambiguate e h p noExt ext idx (getNodeName child) = []")
  case False
  then show ?thesis by (rule getNodeName_named)
next
  case True
  have "\<not> name_taken e h p (getNodeName child)"
  proof
    assume "name_taken e h p (getNodeName child)"
    from disambiguate_taken [OF this, of idx noExt ext] True show False
      by (metis numbered_nonempty)
  qed
  with True have nm: "getNodeName child = []" by (simp add: disambiguate_free)
  then have "(case obj_get child ''source'' of Str s \<Rightarrow> basename s | _ \<Rightarrow> []) = []"
    by (auto simp: getNodeName_def split: jsval.splits if_splits)
  then have "getNodeName (AList.update ''name'' (Str []) child) = []"
    by (simp add: getNodeName_def obj_get_update)
  with True show ?thesis by simp
qed

text \<open>A successful \<^verbatim>\<open>add_vfs\<close> keeps the names of siblings distinct.\<close>

lemma add_vfs_keeps_unique_names:
  assumes wf: "wf_heap h" and un: "unique_names h"
    and ok: "add_vfs e h parent source name = (Inr result, h')"
  shows "unique_names h'"
proof -
  define nm where "nm = getNodeName (new_child e source name)"
  define child where "child = simplifyName (AList.update ''name'' (Str result) (new_child e source name))"
  define h1 where "h1 = h @ [\<lparr>props = child, children = None\<rparr>]"
  from add_vfs_InrD [OF ok] obtain p where par: "add_parent e h parent = Some p"
    and res: "result = disambiguate e h p (without_ext nm) (extname nm) 2 nm"
    and h': "h' = set_children h1 p (Some (length h # kids h1 p))"
    by (auto simp: nm_def child_def h1_def)
  from wf par have v: "p < length h" by (rule add_parent_valid)
  have len: "length h' = Suc (length h)"
    by (simp add: h' h1_def length_set_children)
  have free: "\<not> name_taken e h p result"
    unfolding res by (rule disambiguate_not_taken)
  have new_name: "nodeName h' (length h) = result"
  proof -
    from v have "props (deref h' (length h)) = child"
      by (simp add: h' deref_set_children h1_def deref_append_new)
    then show ?thesis
      unfolding nodeName_def child_def res nm_def
      by (simp add: getNodeName_simplifyName getNodeName_renamed)
  qed
  have old_name: "nodeName h' c = nodeName h c" if "c < length h" for c
    using that by (simp add: nodeName_def h' deref_set_children h1_def deref_append_old)
  have old_kids: "kids h1 a = kids h a" if "a < length h" for a
    using that by (simp add: kids_def h1_def deref_append_old)
  have kids': "kids h' a = (if a = p then length h # kids h p
                            else if a = length h then [] else kids h a)" if "a \<le> length h" for a
  proof (cases "a = p")
    case True
    from v have "kids h1 p = kids h p" by (rule old_kids)
    moreover from v have "p < length h1" by (simp add: h1_def)
    ultimately show ?thesis
      by (simp add: h' kids_set_children True)
  next
    case False
    show ?thesis
    proof (cases "a = length h")
      case True
      moreover from v have "p < length h1" by (simp add: h1_def)
      moreover have "kids h1 (length h) = []"
        by (simp add: kids_def h1_def deref_append_new)
      ultimately show ?thesis using False
        by (simp add: h' kids_set_children)
    next
      case F: False
      with that have "a < length h" by simp
      then have "kids h1 a = kids h a" by (rule old_kids)
      moreover from v have "p < length h1" by (simp add: h1_def)
      ultimately show ?thesis using False F
        by (simp add: h' kids_set_children)
    qed
  qed
  have same: "map (nodeName h') (kids h a) = map (nodeName h) (kids h a)" for a
    by (rule map_cong [OF refl]) (simp add: old_name wf_heap_kids [OF wf])
  have "distinct (map (nodeName h') (kids h' a))" if a: "a < Suc (length h)" for a
  proof (cases "a = p")
    case True
    from un v have d: "distinct (map (nodeName h) (kids h p))" by (simp add: unique_names_iff)
    from free have "result \<notin> nodeName h ` set (kids h p)"
      by (auto simp: name_taken_iff)
    with d True a show ?thesis
      by (simp add: kids' new_name same)
  next
    case False
    show ?thesis
    proof (cases "a = length h")
      case True
      with False show ?thesis by (simp add: kids')
    next
      case F: False
      with a have lt: "a < length h" by simp
      with un have "distinct (map (nodeName h) (kids h a))" by (simp add: unique_names_iff)
      with False F lt show ?thesis by (simp add: kids' same)
    qed
  qed
  then show ?thesis by (simp add: unique_names_iff len)
qed

text \<open>
  C1. The claim: after every successful \<^verbatim>\<open>move_vfs\<close>, \<^verbatim>\<open>add_vfs\<close> or \<^verbatim>\<open>set_vfs\<close> the effective
  names of the children of every node are pairwise distinct, also when \<^verbatim>\<open>set_vfs\<close> clears or
  omits the explicit name. \<^verbatim>\<open>move_vfs\<close> and \<^verbatim>\<open>add_vfs\<close> keep the names distinct (the two
  lemmas above); \<^verbatim>\<open>set_vfs\<close> does not, as it checks the siblings only when the payload has a
  non-empty \<^verbatim>\<open>name\<close>. In \<open>renamed_tree\<close> the names of the children of the root are distinct
  (\<^verbatim>\<open>foo\<close> and \<^verbatim>\<open>bar\<close>). Clearing the name of \<^verbatim>\<open>/bar\<close> succeeds, and its effective name falls
  back to the base name \<^verbatim>\<open>foo\<close> of its source, the name of its sibling. Likewise, with the
  name omitted, giving \<^verbatim>\<open>/foo\<close> the source \<^verbatim>\<open>/z/bar\<close> succeeds and makes it a second \<^verbatim>\<open>bar\<close>.
\<close>

theorem set_vfs_breaks_unique_names:
  "wf_heap renamed_tree \<and> unique_names renamed_tree
   \<and> map (nodeName renamed_tree) (kids renamed_tree vfs) = [''foo'', ''bar'']
   \<and> fst (set_vfs example_env renamed_tree ''/bar'' (Some [(''name'', Str [])]))
       = Inr \<lparr>props = [(''name'', Undefined), (''source'', Str ''/y/foo'')], children = None\<rparr>
   \<and> map (nodeName (snd (set_vfs example_env renamed_tree ''/bar'' (Some [(''name'', Str [])]))))
         (kids (snd (set_vfs example_env renamed_tree ''/bar'' (Some [(''name'', Str [])]))) vfs)
       = [''foo'', ''foo'']
   \<and> \<not> unique_names (snd (set_vfs example_env renamed_tree ''/bar'' (Some [(''name'', Str [])])))
   \<and> fst (set_vfs example_env renamed_tree ''/foo'' (Some [(''source'', Str ''/z/bar'')]))
       = Inr \<lparr>props = [(''source'', Str ''/z/bar'')], children = None\<rparr>
   \<and> map (nodeName (snd (set_vfs example_env renamed_tree ''/foo''
                                (Some [(''source'', Str ''/z/bar'')]))))
         (kids (snd (set_vfs example_env renamed_tree ''/foo''
                       (Some [(''source'', Str ''/z/bar'')]))) vfs)
       = [''bar'', ''bar'']
   \<and> \<not> unique_names (snd (set_vfs example_env renamed_tree ''/foo''
                                (Some [(''source'', Str ''/z/bar'')])))"
  by code_simp

end
